theory Spec2Isabelle
  imports Main "HOL-Library.Word"
begin

section \<open>The pipeline node of src/dsp/dspblock.cxx\<close>

text \<open>
  A \<open>DspBlock\<close> is an object on the heap that refers to its consumers by pointer, so the
  model keeps an explicit store from addresses to blocks; every pointer is taken to point
  to a live block. \<open>unsigned int\<close> is a 32-bit word: \<open>*\<close> wraps, \<open>div\<close> and \<open>\<le>\<close>
  are unsigned. A \<open>vector\<close> is a list and its \<open>size()\<close> the length of the list, a
  natural number (\<open>size_t\<close> is taken to be no narrower than \<open>unsigned int\<close>); where the
  source stores a size in an \<open>unsigned int\<close> the model truncates it with \<open>of_nat\<close>.
  Integer division by zero is undefined in C++ and is a result of its own, \<open>DivByZero\<close>.

  The recursion of \<open>start\<close>, \<open>stop\<close> and \<open>run\<close> follows the consumer pointers and need
  not end (a node may be its own consumer), so each takes the depth of calls it may still
  make and answers \<open>OutOfFuel\<close> when that depth is used up. Their loops run over the
  consumer list as it is when the loop begins; no function of the file changes a list
  while a loop runs over it.

  Not modelled: the \<open>LOG_DEBUG\<close> and \<open>LOG_ERROR\<close> diagnostics, the counters under
  \<open>DSPBLOCK_PROFILE\<close>, the destructor and \<open>DspSource\<close>.
\<close>

type_synonym addr = nat
type_synonym uint = "32 word"

record ('s, 'u) block =
  outputSampleRate :: uint
  outputChannels :: uint
  name :: string
  type :: string
  inputSampleRate :: uint
  inputChannels :: uint
  decimation :: uint
  interpolation :: uint
  isRunning :: bool
  consumers :: "addr list"
  buffer :: "'s list"
  priv :: 'u

text \<open>
  The pure virtual functions \<open>init\<close>, \<open>deinit\<close> and \<open>process\<close> are implemented by the
  subclasses, which are not part of the file: they are parameters of the model, one
  implementation per object. \<open>priv\<close> is whatever state a subclass adds. Following the
  contract of the hooks, \<open>init\<close> reads the block and answers whether it succeeded, the
  output sample rate, the output channel count and the new private state; \<open>deinit\<close>
  answers the new private state; \<open>process\<close> reads the input samples and the block (whose
  \<open>buffer\<close> is the output vector it is handed) and answers whether it succeeded, the
  output vector and the new private state. A hook reads and changes nothing else: not the
  running flag, not a consumer list, not another block.
\<close>

record ('s, 'u) hooks =
  init :: "addr \<Rightarrow> ('s, 'u) block \<Rightarrow> bool \<times> uint \<times> uint \<times> 'u"
  deinit :: "addr \<Rightarrow> ('s, 'u) block \<Rightarrow> 'u"
  process :: "addr \<Rightarrow> ('s, 'u) block \<Rightarrow> 's list \<Rightarrow> bool \<times> 's list \<times> 'u"

text \<open>The calls of the hooks are recorded, in order, beside the heap.\<close>

datatype event = InitCall addr | DeinitCall addr | ProcessCall addr

record ('s, 'u) dsp_state =
  heap :: "addr \<Rightarrow> ('s, 'u) block"
  trace :: "event list"

datatype dsp_error = DivByZero | OutOfFuel

definition put :: "addr \<Rightarrow> ('s, 'u) block \<Rightarrow> ('s, 'u) dsp_state \<Rightarrow> ('s, 'u) dsp_state" where
  "put a b s = s\<lparr>heap := (heap s)(a := b)\<rparr>"

definition record_call :: "event \<Rightarrow> ('s, 'u) dsp_state \<Rightarrow> ('s, 'u) dsp_state" where
  "record_call e s = s\<lparr>trace := trace s @ [e]\<rparr>"

text \<open>
  The constructor; \<open>DEFAULT_SAMPLE_RATE\<close> and \<open>DEFAULT_CHANNELS\<close> come from a header
  that is not part of the file and are parameters.
\<close>

definition DspBlock :: "uint \<Rightarrow> uint \<Rightarrow> 'u \<Rightarrow> string \<Rightarrow> string \<Rightarrow> ('s, 'u) block" where
  "DspBlock DEFAULT_SAMPLE_RATE DEFAULT_CHANNELS p nm ty =
     \<lparr>outputSampleRate = DEFAULT_SAMPLE_RATE, outputChannels = DEFAULT_CHANNELS,
      name = nm, type = ty,
      inputSampleRate = DEFAULT_SAMPLE_RATE, inputChannels = DEFAULT_CHANNELS,
      decimation = 1, interpolation = 1,
      isRunning = False, consumers = [], buffer = [], priv = p\<rparr>"

definition setSampleRate :: "addr \<Rightarrow> uint \<Rightarrow> ('s, 'u) dsp_state \<Rightarrow> ('s, 'u) dsp_state" where
  "setSampleRate a rate s =
     (if isRunning (heap s a) then s
      else put a ((heap s a)\<lparr>inputSampleRate := rate\<rparr>) s)"

definition setChannels :: "addr \<Rightarrow> uint \<Rightarrow> ('s, 'u) dsp_state \<Rightarrow> ('s, 'u) dsp_state" where
  "setChannels a channels s =
     (if isRunning (heap s a) then s
      else put a ((heap s a)\<lparr>inputChannels := channels\<rparr>) s)"

subsection \<open>stop\<close>

text \<open>
  The part of \<open>stop\<close> after the loop over the consumers: \<open>deinit\<close> if the node runs,
  with the flag cleared first, then the buffer is swapped with an empty vector.
\<close>

definition stop_self :: "('s, 'u) hooks \<Rightarrow> addr \<Rightarrow> ('s, 'u) dsp_state \<Rightarrow> ('s, 'u) dsp_state" where
  "stop_self H a s =
     (let s1 = (if isRunning (heap s a)
                then (let b = (heap s a)\<lparr>isRunning := False\<rparr>
                      in record_call (DeinitCall a) (put a (b\<lparr>priv := deinit H a b\<rparr>) s))
                else s)
      in put a ((heap s1 a)\<lparr>buffer := []\<rparr>) s1)"

primrec stop_consumers ::
  "(addr \<Rightarrow> 'st \<Rightarrow> dsp_error + 'st) \<Rightarrow> addr list \<Rightarrow> 'st \<Rightarrow> dsp_error + 'st" where
  "stop_consumers stopf [] s = Inr s"
| "stop_consumers stopf (c # cs) s =
     (case stopf c s of
        Inl e \<Rightarrow> Inl e
      | Inr s1 \<Rightarrow> stop_consumers stopf cs s1)"

primrec stop ::
  "('s, 'u) hooks \<Rightarrow> nat \<Rightarrow> addr \<Rightarrow> ('s, 'u) dsp_state \<Rightarrow> dsp_error + ('s, 'u) dsp_state" where
  "stop H 0 a s = Inl OutOfFuel"
| "stop H (Suc n) a s =
     (case stop_consumers (stop H n) (consumers (heap s a)) s of
        Inl e \<Rightarrow> Inl e
      | Inr s1 \<Rightarrow> Inr (stop_self H a s1))"

subsection \<open>start\<close>

text \<open>
  The part of \<open>start\<close> before the loop over the consumers. The verification divides by
  \<open>_decimation\<close>, which the lines before it have just set.
\<close>

definition verify_rates :: "('s, 'u) hooks \<Rightarrow> addr \<Rightarrow> ('s, 'u) dsp_state \<Rightarrow>
    dsp_error + bool \<times> ('s, 'u) dsp_state" where
  "verify_rates H a s =
     (let b = heap s a in
      if decimation b = 0 then Inl DivByZero
      else if inputSampleRate b * interpolation b div decimation b \<noteq> outputSampleRate b
      then Inr (False, record_call (DeinitCall a) (put a (b\<lparr>priv := deinit H a b\<rparr>) s))
      else Inr (True, put a (b\<lparr>isRunning := True\<rparr>) s))"

definition seed_output :: "('s, 'u) block \<Rightarrow> ('s, 'u) block" where
  "seed_output b = b\<lparr>outputSampleRate := inputSampleRate b, outputChannels := inputChannels b\<rparr>"

definition start_local :: "('s, 'u) hooks \<Rightarrow> addr \<Rightarrow> ('s, 'u) dsp_state \<Rightarrow>
    dsp_error + bool \<times> ('s, 'u) dsp_state" where
  "start_local H a s =
     (let b0 = seed_output (heap s a);
          (ok, rate, channels, p) = init H a b0;
          b1 = b0\<lparr>outputSampleRate := rate, outputChannels := channels, priv := p\<rparr>;
          s1 = record_call (InitCall a) (put a b1 s)
      in if \<not> ok then Inr (False, s1)
         else if outputSampleRate b1 \<le> inputSampleRate b1 then
           (if outputSampleRate b1 = 0 then Inl DivByZero
            else verify_rates H a
                   (put a (b1\<lparr>decimation := inputSampleRate b1 div outputSampleRate b1,
                              interpolation := 1\<rparr>) s1))
         else
           (if inputSampleRate b1 = 0 then Inl DivByZero
            else verify_rates H a
                   (put a (b1\<lparr>decimation := 1,
                              interpolation := outputSampleRate b1 div inputSampleRate b1\<rparr>) s1)))"

text \<open>The two setter calls at the head of the loop body, in the order of the source.\<close>

definition configure :: "addr \<Rightarrow> addr \<Rightarrow> ('s, 'u) dsp_state \<Rightarrow> ('s, 'u) dsp_state" where
  "configure a c s =
     (let s1 = setSampleRate c (outputSampleRate (heap s a)) s
      in setChannels c (outputChannels (heap s1 a)) s1)"

primrec start_consumers ::
  "(addr \<Rightarrow> ('s, 'u) dsp_state \<Rightarrow> dsp_error + bool \<times> ('s, 'u) dsp_state) \<Rightarrow>
   (('s, 'u) dsp_state \<Rightarrow> dsp_error + ('s, 'u) dsp_state) \<Rightarrow>
   addr \<Rightarrow> addr list \<Rightarrow> ('s, 'u) dsp_state \<Rightarrow> dsp_error + bool \<times> ('s, 'u) dsp_state" where
  "start_consumers startf stopf a [] s = Inr (True, s)"
| "start_consumers startf stopf a (c # cs) s =
     (case startf c (configure a c s) of
        Inl e \<Rightarrow> Inl e
      | Inr (ok, s1) \<Rightarrow>
          if \<not> ok then (case stopf s1 of Inl e \<Rightarrow> Inl e | Inr s2 \<Rightarrow> Inr (False, s2))
          else start_consumers startf stopf a cs s1)"

primrec start ::
  "('s, 'u) hooks \<Rightarrow> nat \<Rightarrow> addr \<Rightarrow> ('s, 'u) dsp_state \<Rightarrow>
   dsp_error + bool \<times> ('s, 'u) dsp_state" where
  "start H 0 a s = Inl OutOfFuel"
| "start H (Suc n) a s =
     (case start_local H a s of
        Inl e \<Rightarrow> Inl e
      | Inr (ok, s1) \<Rightarrow>
          if \<not> ok then Inr (False, s1)
          else start_consumers (start H n) (stop H n a) a (consumers (heap s1 a)) s1)"

subsection \<open>connect and disconnect\<close>

text \<open>
  Each first starts, or stops, the block it is given if this node runs, whatever that
  call returns, and then changes the consumer list: \<open>hook_up\<close> is the search and the
  \<open>push_back\<close> of \<open>connect\<close>, \<open>un_hook\<close> the \<open>erase\<close> and \<open>remove\<close> of
  \<open>disconnect\<close>.
\<close>

definition hook_up :: "addr \<Rightarrow> addr \<Rightarrow> ('s, 'u) dsp_state \<Rightarrow> ('s, 'u) dsp_state" where
  "hook_up a blk s =
     (if blk \<in> set (consumers (heap s a)) then s
      else put a ((heap s a)\<lparr>consumers := consumers (heap s a) @ [blk]\<rparr>) s)"

definition connect ::
  "('s, 'u) hooks \<Rightarrow> nat \<Rightarrow> addr \<Rightarrow> addr \<Rightarrow> ('s, 'u) dsp_state \<Rightarrow>
   dsp_error + ('s, 'u) dsp_state" where
  "connect H n a blk s =
     (if isRunning (heap s a)
      then (case start H n blk s of
              Inl e \<Rightarrow> Inl e
            | Inr (ok, s1) \<Rightarrow> Inr (hook_up a blk s1))
      else Inr (hook_up a blk s))"

definition un_hook :: "addr \<Rightarrow> addr \<Rightarrow> ('s, 'u) dsp_state \<Rightarrow> ('s, 'u) dsp_state" where
  "un_hook a blk s = put a ((heap s a)\<lparr>consumers := removeAll blk (consumers (heap s a))\<rparr>) s"

definition disconnect ::
  "('s, 'u) hooks \<Rightarrow> nat \<Rightarrow> addr \<Rightarrow> addr \<Rightarrow> ('s, 'u) dsp_state \<Rightarrow>
   dsp_error + ('s, 'u) dsp_state" where
  "disconnect H n a blk s =
     (if isRunning (heap s a)
      then (case stop H n blk s of
              Inl e \<Rightarrow> Inl e
            | Inr s1 \<Rightarrow> Inr (un_hook a blk s1))
      else Inr (un_hook a blk s))"

subsection \<open>run\<close>

text \<open>
  \<open>run\<close> takes its input by reference. The driver hands it a vector of its own; a node
  hands its consumers its own \<open>buffer\<close>, which is read where the source reads it.
\<close>

datatype 's bufref = External "'s list" | BufferOf addr

primrec deref :: "'s bufref \<Rightarrow> ('s, 'u) dsp_state \<Rightarrow> 's list" where
  "deref (External xs) s = xs"
| "deref (BufferOf a) s = buffer (heap s a)"

text \<open>
  \<open>vector::resize\<close>: cut, or fill up with value-initialised samples. The two frame
  counts of \<open>run\<close> are \<open>unsigned int\<close>.
\<close>

definition resize :: "nat \<Rightarrow> 's::zero list \<Rightarrow> 's list" where
  "resize n xs = take n xs @ replicate (n - length xs) 0"

definition inframes_of :: "nat \<Rightarrow> uint \<Rightarrow> uint" where
  "inframes_of len channels = of_nat (len div unat channels)"

definition outframes_of :: "uint \<Rightarrow> uint \<Rightarrow> uint \<Rightarrow> uint" where
  "outframes_of inframes interp decim = inframes * interp div decim"

text \<open>Lines 179 to 184: the output vector is resized only if its size is not the one needed.\<close>

definition size_buffer :: "addr \<Rightarrow> nat \<Rightarrow> ('s::zero, 'u) dsp_state \<Rightarrow> ('s, 'u) dsp_state" where
  "size_buffer a n s =
     (if length (buffer (heap s a)) \<noteq> n
      then put a ((heap s a)\<lparr>buffer := resize n (buffer (heap s a))\<rparr>) s
      else s)"

text \<open>The call \<open>process(inBuffer, buffer)\<close>; the vector it leaves is the node's buffer.\<close>

definition call_process :: "('s, 'u) hooks \<Rightarrow> addr \<Rightarrow> 's bufref \<Rightarrow> ('s, 'u) dsp_state \<Rightarrow>
    bool \<times> ('s, 'u) dsp_state" where
  "call_process H a inBuffer s =
     (let (ok, out, p) = process H a (heap s a) (deref inBuffer s)
      in (ok, record_call (ProcessCall a) (put a ((heap s a)\<lparr>buffer := out, priv := p\<rparr>) s)))"

text \<open>The part of \<open>run\<close> between the test of the running flag and the loop over the consumers.\<close>

definition run_local :: "('s::zero, 'u) hooks \<Rightarrow> addr \<Rightarrow> 's bufref \<Rightarrow> ('s, 'u) dsp_state \<Rightarrow>
    dsp_error + bool \<times> ('s, 'u) dsp_state" where
  "run_local H a inBuffer s =
     (let b = heap s a in
      if inputChannels b = 0 then Inl DivByZero
      else let inframes = inframes_of (length (deref inBuffer s)) (inputChannels b) in
      if decimation b = 0 then Inl DivByZero
      else let outframes = outframes_of inframes (interpolation b) (decimation b)
           in Inr (call_process H a inBuffer (size_buffer a (unat (outframes * outputChannels b)) s)))"

primrec run_consumers ::
  "(addr \<Rightarrow> 's bufref \<Rightarrow> 'st \<Rightarrow> dsp_error + bool \<times> 'st) \<Rightarrow>
   addr \<Rightarrow> addr list \<Rightarrow> 'st \<Rightarrow> dsp_error + bool \<times> 'st" where
  "run_consumers runf a [] s = Inr (True, s)"
| "run_consumers runf a (c # cs) s =
     (case runf c (BufferOf a) s of
        Inl e \<Rightarrow> Inl e
      | Inr (ok, s1) \<Rightarrow> if \<not> ok then Inr (False, s1) else run_consumers runf a cs s1)"

primrec run ::
  "('s::zero, 'u) hooks \<Rightarrow> nat \<Rightarrow> addr \<Rightarrow> 's bufref \<Rightarrow> ('s, 'u) dsp_state \<Rightarrow>
   dsp_error + bool \<times> ('s, 'u) dsp_state" where
  "run H 0 a inBuffer s = Inl OutOfFuel"
| "run H (Suc n) a inBuffer s =
     (if \<not> isRunning (heap s a) then Inr (False, s)
      else case run_local H a inBuffer s of
             Inl e \<Rightarrow> Inl e
           | Inr (ok, s1) \<Rightarrow>
               if \<not> ok then Inr (False, s1)
               else run_consumers (run H n) a (consumers (heap s1 a)) s1)"

section \<open>Notions used by the properties\<close>

text \<open>
  The consumer graph of a state: an edge from every node to each of its consumers, and the
  nodes a node reaches along such edges, itself included: its transitive consumers.
\<close>

definition consumer_rel :: "('s, 'u) dsp_state \<Rightarrow> (addr \<times> addr) set" where
  "consumer_rel s = {(x, c). c \<in> set (consumers (heap s x))}"

definition reach :: "('s, 'u) dsp_state \<Rightarrow> addr \<Rightarrow> addr set" where
  "reach s a = (consumer_rel s)\<^sup>* `` {a}"

text \<open>Two states with the same consumer lists.\<close>

definition same_graph :: "('s, 'u) dsp_state \<Rightarrow> ('s, 'u) dsp_state \<Rightarrow> bool" where
  "same_graph s t = (\<forall>x. consumers (heap t x) = consumers (heap s x))"

text \<open>A node that is not running and has an empty buffer.\<close>

definition quiet :: "('s, 'u) dsp_state \<Rightarrow> addr \<Rightarrow> bool" where
  "quiet s x = (\<not> isRunning (heap s x) \<and> buffer (heap s x) = [])"

text \<open>A node from which a cycle of the consumer graph can be reached.\<close>

definition loops :: "('s, 'u) dsp_state \<Rightarrow> addr \<Rightarrow> bool" where
  "loops s a = (\<exists>y \<in> reach s a. (y, y) \<in> (consumer_rel s)\<^sup>+)"

text \<open>The rates, channel counts and factors of a block.\<close>

definition settings :: "('s, 'u) block \<Rightarrow> uint \<times> uint \<times> uint \<times> uint \<times> uint \<times> uint" where
  "settings b = (inputSampleRate b, inputChannels b, outputSampleRate b, outputChannels b,
                 decimation b, interpolation b)"

text \<open>What a call returned, if it returned, and the state it left.\<close>

definition returned :: "dsp_error + bool \<times> 'st \<Rightarrow> bool option" where
  "returned res = (case res of Inl e \<Rightarrow> None | Inr (ok, s) \<Rightarrow> Some ok)"

definition final :: "dsp_error + bool \<times> 'st \<Rightarrow> 'st" where
  "final res = snd (projr res)"

text \<open>Two rates of which one is a whole multiple of the other.\<close>

definition integer_related :: "uint \<Rightarrow> uint \<Rightarrow> bool" where
  "integer_related x y = (unat x dvd unat y \<or> unat y dvd unat x)"

text \<open>No consumer list of the store holds a node twice.\<close>

definition no_duplicates :: "('s, 'u) dsp_state \<Rightarrow> bool" where
  "no_duplicates s = (\<forall>x. distinct (consumers (heap s x)))"

text \<open>
  A ranking of the nodes that falls along every consumer edge: the consumer graph has no
  cycle, and the rank of a node bounds the depth of the calls below it.
\<close>

definition ranked :: "(addr \<Rightarrow> nat) \<Rightarrow> ('s, 'u) dsp_state \<Rightarrow> bool" where
  "ranked rk s = (\<forall>x. \<forall>c \<in> set (consumers (heap s x)). rk c < rk x)"

text \<open>
  The same of the part of the graph below a node only: the ranking falls along every edge
  that leaves a node reachable from \<open>a\<close>, so no cycle can be reached from \<open>a\<close>.
\<close>

definition ranked_below :: "(addr \<Rightarrow> nat) \<Rightarrow> ('s, 'u) dsp_state \<Rightarrow> addr \<Rightarrow> bool" where
  "ranked_below rk s a = (\<forall>x \<in> reach s a. \<forall>c \<in> set (consumers (heap s x)). rk c < rk x)"

text \<open>
  The size \<open>run\<close> computes for the output vector of a block from the length of its
  input: \<open>inframes = length / inputChannels\<close>, truncated to an \<open>unsigned int\<close>,
  \<open>outframes = inframes * interpolation / decimation\<close>, and the product
  \<open>outframes * outputChannels\<close>, all in 32 bits.
\<close>

definition required_size :: "('s, 'u) block \<Rightarrow> nat \<Rightarrow> nat" where
  "required_size b len =
     unat (outframes_of (inframes_of len (inputChannels b)) (interpolation b) (decimation b)
           * outputChannels b)"

text \<open>
  The contract of \<open>process\<close>: it fills the output vector it is handed and leaves its size
  alone.
\<close>

definition keeps_size :: "('s, 'u) hooks \<Rightarrow> addr \<Rightarrow> bool" where
  "keeps_size H a = (\<forall>b inb. length (fst (snd (process H a b inb))) = length (buffer b))"

subsection \<open>Concrete pipelines\<close>

text \<open>
  Stages over integer samples without private state: \<open>init\<close> of the node at \<open>a\<close>
  succeeds where \<open>ok a\<close> holds and announces the output rate \<open>rate a\<close> of its input
  rate; \<open>process\<close> leaves the output vector as it was handed.
\<close>

definition stage_hooks :: "(addr \<Rightarrow> bool) \<Rightarrow> (addr \<Rightarrow> uint \<Rightarrow> uint) \<Rightarrow> (int, unit) hooks" where
  "stage_hooks ok rate =
     \<lparr>init = (\<lambda>a b. (ok a, rate a (inputSampleRate b), outputChannels b, priv b)),
      deinit = (\<lambda>a b. priv b),
      process = (\<lambda>a b inb. (True, buffer b, priv b))\<rparr>"

text \<open>Every node as the constructor leaves it, with 48000 and 1 for the defaults.\<close>

definition fresh_state :: "(int, unit) dsp_state" where
  "fresh_state = \<lparr>heap = (\<lambda>a. DspBlock 48000 1 () ''node'' ''stage''), trace = []\<rparr>"

text \<open>Node 0 produces 8000 from any input rate, every other node keeps its rate.\<close>

definition decimating_source :: "(int, unit) hooks" where
  "decimating_source = stage_hooks (\<lambda>a. True) (\<lambda>a r. if a = 0 then 8000 else r)"

text \<open>Node 0, started on its own.\<close>

definition running_source :: "(int, unit) dsp_state" where
  "running_source = final (start decimating_source (Suc 0) 0 fresh_state)"

text \<open>Every stage keeps its rate; \<open>init\<close> of node 2 fails.\<close>

definition failing_sink :: "(int, unit) hooks" where
  "failing_sink = stage_hooks (\<lambda>a. a \<noteq> 2) (\<lambda>a r. r)"

text \<open>Node 0 feeds nodes 1 and 2; nothing is started.\<close>

definition fan_out :: "(int, unit) dsp_state" where
  "fan_out = hook_up 0 2 (hook_up 0 1 fresh_state)"

text \<open>A stage that produces 48000, and a node whose input rate was set to 44100.\<close>

definition resampler_48k :: "(int, unit) hooks" where
  "resampler_48k = stage_hooks (\<lambda>a. True) (\<lambda>a r. 48000)"

definition cd_rate_input :: "(int, unit) dsp_state" where
  "cd_rate_input = setSampleRate 0 44100 fresh_state"

text \<open>A stage that produces 24000, and a node whose input rate was set to 48001.\<close>

definition producer_24k :: "(int, unit) hooks" where
  "producer_24k = stage_hooks (\<lambda>a. True) (\<lambda>a r. 24000)"

definition odd_rate_input :: "(int, unit) dsp_state" where
  "odd_rate_input = setSampleRate 0 48001 fresh_state"

text \<open>
  Stages whose \<open>init\<close> keeps the rate and whose \<open>process\<close> copies the input into the
  output vector it is handed, as far as that reaches; \<open>process\<close> of the node at \<open>a\<close>
  succeeds where \<open>ok a\<close> holds.
\<close>

definition copy_hooks :: "(addr \<Rightarrow> bool) \<Rightarrow> (int, unit) hooks" where
  "copy_hooks ok =
     \<lparr>init = (\<lambda>a b. (True, outputSampleRate b, outputChannels b, priv b)),
      deinit = (\<lambda>a b. priv b),
      process = (\<lambda>a b inb. (ok a, take (length (buffer b)) (inb @ buffer b), priv b))\<rparr>"

text \<open>The stages all of whose \<open>process\<close> calls succeed.\<close>

definition plain_copy :: "(int, unit) hooks" where
  "plain_copy = copy_hooks (\<lambda>a. True)"

text \<open>Node 0 feeds node 1; both were started, then node 1 was stopped on its own.\<close>

definition consumer_stopped :: "(int, unit) dsp_state" where
  "consumer_stopped =
     projr (stop plain_copy (Suc 0) 1
       (final (start plain_copy (Suc (Suc 0)) 0 (hook_up 0 1 fresh_state))))"

text \<open>
  A started pipeline: every node runs at the default rate, and node 0 feeds nodes 1, 2
  and 3.
\<close>

definition three_sinks :: "(int, unit) dsp_state" where
  "three_sinks =
     \<lparr>heap = (\<lambda>a. (DspBlock 48000 1 () ''node'' ''stage'')
                \<lparr>isRunning := True, consumers := (if a = 0 then [1, 2, 3] else [])\<rparr>),
      trace = []\<rparr>"

text \<open>Node 0 of a fresh store, connected to itself.\<close>

definition self_fed :: "(int, unit) dsp_state" where
  "self_fed = hook_up 0 0 fresh_state"

text \<open>
  The started pipeline of node 0 and its three consumers, beside a node 4 that feeds
  itself.
\<close>

definition side_loop :: "(int, unit) dsp_state" where
  "side_loop = hook_up 4 4 three_sinks"

text \<open>
  A single node with three input channels and input rate 2, started by a stage that
  announces the output rate 2863311532.
\<close>

definition wide_interpolator :: "(int, unit) hooks" where
  "wide_interpolator = stage_hooks (\<lambda>a. True) (\<lambda>a r. 2863311532)"

definition wide_started :: "(int, unit) dsp_state" where
  "wide_started =
     final (start wide_interpolator (Suc 0) 0 (setChannels 0 3 (setSampleRate 0 2 fresh_state)))"

section \<open>Lemmas\<close>

subsection \<open>The store and the consumer graph\<close>

lemma heap_put [simp]: "heap (put a b s) = (heap s)(a := b)"
  by (simp add: put_def)

lemma trace_put [simp]: "trace (put a b s) = trace s"
  by (simp add: put_def)

lemma heap_record_call [simp]: "heap (record_call e s) = heap s"
  by (simp add: record_call_def)

lemma trace_record_call [simp]: "trace (record_call e s) = trace s @ [e]"
  by (simp add: record_call_def)

lemma put_same [simp]: "put a (heap s a) s = s"
  by (simp add: put_def)

lemma same_graph_refl [simp]: "same_graph s s"
  by (simp add: same_graph_def)

lemma same_graph_trans: "same_graph s t \<Longrightarrow> same_graph t u \<Longrightarrow> same_graph s u"
  by (simp add: same_graph_def)

lemma same_graph_rel: "same_graph s t \<Longrightarrow> consumer_rel t = consumer_rel s"
  by (simp add: same_graph_def consumer_rel_def)

lemma same_graph_reach: "same_graph s t \<Longrightarrow> reach t a = reach s a"
  by (simp add: reach_def same_graph_rel)

lemma reach_self [simp]: "a \<in> reach s a"
  by (simp add: reach_def)

lemma reach_consumer: "c \<in> set (consumers (heap s a)) \<Longrightarrow> reach s c \<subseteq> reach s a"
  unfolding reach_def consumer_rel_def
  by (auto intro: converse_rtrancl_into_rtrancl)

lemma consumer_in_reach: "c \<in> set (consumers (heap s a)) \<Longrightarrow> c \<in> reach s a"
  using reach_consumer [of c s a] reach_self [of c s] by blast

lemma reach_cases:
  "x \<in> reach s a \<Longrightarrow> x = a \<or> (\<exists>c \<in> set (consumers (heap s a)). x \<in> reach s c)"
  unfolding reach_def consumer_rel_def
  by (auto elim: converse_rtranclE)

subsection \<open>stop\<close>

lemma stop_consumers_inv:
  assumes "stop_consumers f cs s = Inr s'" and "P s"
    and "\<And>c t t'. c \<in> set cs \<Longrightarrow> P t \<Longrightarrow> f c t = Inr t' \<Longrightarrow> P t'"
  shows "P s'"
  using assms
proof (induction cs arbitrary: s)
  case Nil
  then show ?case by simp
next
  case (Cons c cs)
  from Cons.prems(1) obtain s1 where c: "f c s = Inr s1" and r: "stop_consumers f cs s1 = Inr s'"
    by (auto split: sum.splits)
  have p1: "P s1" by (rule Cons.prems(3) [OF _ Cons.prems(2) c]) simp
  show ?case
  proof (rule Cons.IH [OF r p1])
    fix d t t' assume "d \<in> set cs" "P t" "f d t = Inr t'"
    then show "P t'" using Cons.prems(3) [of d t t'] by simp
  qed
qed

lemma stop_self_other: "x \<noteq> a \<Longrightarrow> heap (stop_self H a s) x = heap s x"
  by (simp add: stop_self_def Let_def)

lemma stop_self_consumers [simp]: "consumers (heap (stop_self H a s) x) = consumers (heap s x)"
  by (simp add: stop_self_def Let_def)

lemma stop_self_not_running [simp]: "\<not> isRunning (heap (stop_self H a s) a)"
  by (simp add: stop_self_def Let_def)

lemma stop_self_buffer [simp]: "buffer (heap (stop_self H a s) a) = []"
  by (simp add: stop_self_def Let_def)

lemma stop_self_running_mono: "isRunning (heap (stop_self H a s) x) \<Longrightarrow> isRunning (heap s x)"
  by (simp add: stop_self_def Let_def split: if_splits)

lemma stop_self_quiet:
  "\<not> isRunning (heap s a) \<Longrightarrow> buffer (heap s a) = [] \<Longrightarrow> stop_self H a s = s"
proof -
  assume a: "\<not> isRunning (heap s a)" "buffer (heap s a) = []"
  have "(heap s a)\<lparr>buffer := []\<rparr> = (heap s a)\<lparr>buffer := buffer (heap s a)\<rparr>"
    by (simp only: a)
  then have eq: "(heap s a)\<lparr>buffer := []\<rparr> = heap s a" by simp
  show ?thesis using a(1) by (simp add: stop_self_def Let_def eq)
qed

lemma stop_same_graph: "stop H n a s = Inr s' \<Longrightarrow> same_graph s s'"
proof (induction n arbitrary: a s s')
  case 0
  then show ?case by simp
next
  case (Suc n)
  from Suc.prems obtain s1 where
    l: "stop_consumers (stop H n) (consumers (heap s a)) s = Inr s1" and s': "s' = stop_self H a s1"
    by (auto split: sum.splits)
  have "same_graph s s1"
    by (rule stop_consumers_inv [OF l, where P = "same_graph s"])
       (auto intro: same_graph_trans Suc.IH)
  then show ?case by (simp add: s' same_graph_def)
qed

lemma stop_self_buffer_pres: "buffer (heap s x) = [] \<Longrightarrow> buffer (heap (stop_self H a s) x) = []"
  by (simp add: stop_self_def Let_def)

lemma stop_frame:
  "stop H n a s = Inr s' \<Longrightarrow> x \<notin> reach s a \<Longrightarrow> heap s' x = heap s x"
proof (induction n arbitrary: a s s')
  case 0
  then show ?case by simp
next
  case (Suc n)
  from Suc.prems(1) obtain s1 where
    l: "stop_consumers (stop H n) (consumers (heap s a)) s = Inr s1" and s': "s' = stop_self H a s1"
    by (auto split: sum.splits)
  have "same_graph s s1 \<and> heap s1 x = heap s x"
  proof (rule stop_consumers_inv [OF l, where P = "\<lambda>t. same_graph s t \<and> heap t x = heap s x"])
    show "same_graph s s \<and> heap s x = heap s x" by simp
  next
    fix c t t'
    assume c: "c \<in> set (consumers (heap s a))" and t: "same_graph s t \<and> heap t x = heap s x"
      and st: "stop H n c t = Inr t'"
    have "x \<notin> reach t c" using Suc.prems(2) reach_consumer [OF c] t by (auto simp: same_graph_reach)
    with Suc.IH [OF st] have "heap t' x = heap t x" by simp
    moreover have "same_graph t t'" using st by (rule stop_same_graph)
    ultimately show "same_graph s t' \<and> heap t' x = heap s x"
      using t by (auto intro: same_graph_trans)
  qed
  moreover have "x \<noteq> a" using Suc.prems(2) by auto
  ultimately show ?case by (simp add: s' stop_self_other)
qed

lemma stop_running_mono:
  "stop H n a s = Inr s' \<Longrightarrow> isRunning (heap s' x) \<Longrightarrow> isRunning (heap s x)"
proof (induction n arbitrary: a s s')
  case 0
  then show ?case by simp
next
  case (Suc n)
  from Suc.prems(1) obtain s1 where
    l: "stop_consumers (stop H n) (consumers (heap s a)) s = Inr s1" and s': "s' = stop_self H a s1"
    by (auto split: sum.splits)
  have "isRunning (heap s1 x) \<longrightarrow> isRunning (heap s x)"
    by (rule stop_consumers_inv [OF l, where P = "\<lambda>t. isRunning (heap t x) \<longrightarrow> isRunning (heap s x)"])
       (auto dest: Suc.IH)
  then show ?case using Suc.prems(2) by (auto simp: s' dest: stop_self_running_mono)
qed

lemma stop_buffer_pres:
  "stop H n a s = Inr s' \<Longrightarrow> buffer (heap s x) = [] \<Longrightarrow> buffer (heap s' x) = []"
proof (induction n arbitrary: a s s')
  case 0
  then show ?case by simp
next
  case (Suc n)
  from Suc.prems(1) obtain s1 where
    l: "stop_consumers (stop H n) (consumers (heap s a)) s = Inr s1" and s': "s' = stop_self H a s1"
    by (auto split: sum.splits)
  have "buffer (heap s1 x) = []"
    by (rule stop_consumers_inv [OF l, where P = "\<lambda>t. buffer (heap t x) = []"])
       (auto intro: Suc.IH Suc.prems(2))
  then show ?case by (simp add: s' stop_self_buffer_pres)
qed

lemma stop_quiet_pres: "stop H n a s = Inr s' \<Longrightarrow> quiet s x \<Longrightarrow> quiet s' x"
  by (auto simp: quiet_def dest: stop_running_mono stop_buffer_pres)

lemma stop_quiets:
  "stop H n a s = Inr s' \<Longrightarrow> x \<in> reach s a \<Longrightarrow> quiet s' x"
proof (induction n arbitrary: a s s' x)
  case 0
  then show ?case by simp
next
  case (Suc n)
  from Suc.prems(1) obtain s1 where
    l: "stop_consumers (stop H n) (consumers (heap s a)) s = Inr s1" and s': "s' = stop_self H a s1"
    by (auto split: sum.splits)
  have inv: "same_graph s s1 \<and> (\<forall>c \<in> set cs. \<forall>y \<in> reach s c. quiet s1 y)"
    if "stop_consumers (stop H n) cs s = Inr s1" for cs
    using that
  proof (induction cs arbitrary: s)
    case Nil
    then show ?case by simp
  next
    case (Cons c cs)
    from Cons.prems obtain t where c: "stop H n c s = Inr t"
      and r: "stop_consumers (stop H n) cs t = Inr s1"
      by (auto split: sum.splits)
    have g: "same_graph s t" using c by (rule stop_same_graph)
    from Cons.IH [OF r] have g1: "same_graph t s1"
      and q: "\<forall>d \<in> set cs. \<forall>y \<in> reach t d. quiet s1 y" by auto
    have "\<forall>y \<in> reach s c. quiet t y" using Suc.IH [OF c] by simp
    moreover have "quiet s1 y" if "quiet t y" for y
      using that
      by (rule stop_consumers_inv [OF r, where P = "\<lambda>u. quiet u y"]) (auto dest: stop_quiet_pres)
    ultimately have "\<forall>y \<in> reach s c. quiet s1 y" by simp
    with q g g1 show ?case by (auto simp: same_graph_reach intro: same_graph_trans)
  qed
  from inv [OF l] have g: "same_graph s s1"
    and q: "\<forall>c \<in> set (consumers (heap s a)). \<forall>y \<in> reach s c. quiet s1 y" by auto
  show ?case
  proof (cases "x = a")
    case True
    then show ?thesis by (simp add: s' quiet_def)
  next
    case False
    with reach_cases [OF Suc.prems(2)] q have "quiet s1 x" by auto
    with False show ?thesis by (simp add: s' quiet_def stop_self_other)
  qed
qed

lemma stop_quiet_id:
  "stop H n a t = Inr t' \<Longrightarrow> same_graph t s \<Longrightarrow> \<forall>x \<in> reach s a. quiet s x \<Longrightarrow> stop H n a s = Inr s"
proof (induction n arbitrary: a t t' s)
  case 0
  then show ?case by simp
next
  case (Suc n)
  from Suc.prems(1) obtain t1 where
    l: "stop_consumers (stop H n) (consumers (heap t a)) t = Inr t1"
    by (auto split: sum.splits)
  have cs: "consumers (heap t a) = consumers (heap s a)"
    using Suc.prems(2) by (simp add: same_graph_def)
  have "stop_consumers (stop H n) cs s = Inr s"
    if "stop_consumers (stop H n) cs t = Inr t1" "same_graph t s" "set cs \<subseteq> set (consumers (heap s a))"
    for cs t
    using that
  proof (induction cs arbitrary: t)
    case Nil
    then show ?case by simp
  next
    case (Cons c cs)
    from Cons.prems(1) obtain u where c: "stop H n c t = Inr u"
      and r: "stop_consumers (stop H n) cs u = Inr t1"
      by (auto split: sum.splits)
    have "c \<in> set (consumers (heap s a))" using Cons.prems(3) by simp
    then have "\<forall>x \<in> reach s c. quiet s x" using Suc.prems(3) reach_consumer by blast
    from Suc.IH [OF c Cons.prems(2) this] have 1: "stop H n c s = Inr s" .
    have "same_graph t u" using c by (rule stop_same_graph)
    then have "same_graph u s" using Cons.prems(2) by (simp add: same_graph_def)
    from Cons.IH [OF r this] Cons.prems(3) have "stop_consumers (stop H n) cs s = Inr s" by simp
    with 1 show ?case by simp
  qed
  from this [OF l Suc.prems(2)] cs have "stop_consumers (stop H n) (consumers (heap s a)) s = Inr s"
    by simp
  moreover have "quiet s a" using Suc.prems(3) by simp
  ultimately show ?case by (simp add: quiet_def stop_self_quiet)
qed

lemma stop_idem: "stop H n a s = Inr s' \<Longrightarrow> stop H n a s' = Inr s'"
proof (rule stop_quiet_id)
  assume st: "stop H n a s = Inr s'"
  show "stop H n a s = Inr s'" by (rule st)
  show g: "same_graph s s'" using st by (rule stop_same_graph)
  show "\<forall>x \<in> reach s' a. quiet s' x" using st g by (auto simp: same_graph_reach dest: stop_quiets)
qed

subsection \<open>start\<close>

lemma setSampleRate_graph [simp]: "consumers (heap (setSampleRate c v s) x) = consumers (heap s x)"
  by (simp add: setSampleRate_def)

lemma setChannels_graph [simp]: "consumers (heap (setChannels c v s) x) = consumers (heap s x)"
  by (simp add: setChannels_def)

lemma setSampleRate_other: "x \<noteq> c \<Longrightarrow> heap (setSampleRate c v s) x = heap s x"
  by (simp add: setSampleRate_def)

lemma setChannels_other: "x \<noteq> c \<Longrightarrow> heap (setChannels c v s) x = heap s x"
  by (simp add: setChannels_def)

lemma configure_graph [simp]: "consumers (heap (configure a c s) x) = consumers (heap s x)"
  by (simp add: configure_def Let_def)

lemma configure_same_graph [simp]: "same_graph s (configure a c s)"
  by (simp add: same_graph_def)

lemma configure_other: "x \<noteq> c \<Longrightarrow> heap (configure a c s) x = heap s x"
  by (simp add: configure_def Let_def setSampleRate_other setChannels_other)

lemma configure_running: "isRunning (heap s c) \<Longrightarrow> configure a c s = s"
  by (simp add: configure_def Let_def setSampleRate_def setChannels_def)

lemma start_local_other:
  "start_local H a s = Inr (r, s') \<Longrightarrow> x \<noteq> a \<Longrightarrow> heap s' x = heap s x"
  by (auto simp: start_local_def verify_rates_def seed_output_def Let_def
           split: prod.splits if_splits)

lemma start_local_graph:
  "start_local H a s = Inr (r, s') \<Longrightarrow> same_graph s s'"
  by (auto simp: start_local_def verify_rates_def seed_output_def Let_def same_graph_def
           split: prod.splits if_splits)

lemma start_local_input:
  "start_local H a s = Inr (r, s') \<Longrightarrow>
     inputSampleRate (heap s' x) = inputSampleRate (heap s x) \<and>
     inputChannels (heap s' x) = inputChannels (heap s x)"
  by (auto simp: start_local_def verify_rates_def seed_output_def Let_def
           split: prod.splits if_splits)

lemma start_local_running:
  "start_local H a s = Inr (True, s') \<Longrightarrow> isRunning (heap s' a)"
  by (auto simp: start_local_def verify_rates_def seed_output_def Let_def
           split: prod.splits if_splits)

lemma start_consumers_inv:
  assumes "start_consumers f g a cs s = Inr (r, s')" and "P s"
    and "\<And>c t. c \<in> set cs \<Longrightarrow> P t \<Longrightarrow> P (configure a c t)"
    and "\<And>c t r t'. c \<in> set cs \<Longrightarrow> P t \<Longrightarrow> f c t = Inr (r, t') \<Longrightarrow> P t'"
    and "\<And>t t'. P t \<Longrightarrow> g t = Inr t' \<Longrightarrow> P t'"
  shows "P s'"
  using assms(1,2,3,4)
proof (induction cs arbitrary: s)
  case Nil
  then show ?case by simp
next
  case (Cons c cs)
  from Cons.prems(1) obtain ok s1 where c: "f c (configure a c s) = Inr (ok, s1)"
    by (auto split: sum.splits)
  have p0: "P (configure a c s)" by (rule Cons.prems(3) [OF _ Cons.prems(2)]) simp
  have p1: "P s1" by (rule Cons.prems(4) [OF _ p0 c]) simp
  show ?case
  proof (cases ok)
    case True
    with Cons.prems(1) c have r: "start_consumers f g a cs s1 = Inr (r, s')" by simp
    show ?thesis
    proof (rule Cons.IH [OF r p1])
      fix d t assume "d \<in> set cs" "P t"
      then show "P (configure a d t)" using Cons.prems(3) [of d t] by simp
    next
      fix d t r t' assume "d \<in> set cs" "P t" "f d t = Inr (r, t')"
      then show "P t'" using Cons.prems(4) [of d t r t'] by simp
    qed
  next
    case False
    with Cons.prems(1) c have "g s1 = Inr s'" by (auto split: sum.splits)
    with p1 show ?thesis by (rule assms(5))
  qed
qed

lemma start_same_graph: "start H n a s = Inr (r, s') \<Longrightarrow> same_graph s s'"
proof (induction n arbitrary: a s r s')
  case 0
  then show ?case by simp
next
  case (Suc n)
  from Suc.prems obtain ok s1 where l: "start_local H a s = Inr (ok, s1)"
    by (auto split: sum.splits)
  have g1: "same_graph s s1" using l by (rule start_local_graph)
  show ?case
  proof (cases ok)
    case False
    with Suc.prems l g1 show ?thesis by simp
  next
    case True
    with Suc.prems l have
      c: "start_consumers (start H n) (stop H n a) a (consumers (heap s1 a)) s1 = Inr (r, s')"
      by simp
    show ?thesis
      by (rule start_consumers_inv [OF c, where P = "same_graph s"])
         (auto intro: g1 same_graph_trans configure_same_graph dest: Suc.IH stop_same_graph)
  qed
qed

lemma start_frame:
  "start H n a s = Inr (r, s') \<Longrightarrow> x \<notin> reach s a \<Longrightarrow> heap s' x = heap s x"
proof (induction n arbitrary: a s r s')
  case 0
  then show ?case by simp
next
  case (Suc n)
  from Suc.prems(1) obtain ok s1 where l: "start_local H a s = Inr (ok, s1)"
    by (auto split: sum.splits)
  have g1: "same_graph s s1" using l by (rule start_local_graph)
  have xa: "x \<noteq> a" using Suc.prems(2) by auto
  have h1: "heap s1 x = heap s x" using l xa by (rule start_local_other)
  show ?case
  proof (cases ok)
    case False
    with Suc.prems l h1 show ?thesis by simp
  next
    case True
    with Suc.prems l have
      c: "start_consumers (start H n) (stop H n a) a (consumers (heap s1 a)) s1 = Inr (r, s')"
      by simp
    have cs: "consumers (heap s1 a) = consumers (heap s a)" using g1 by (simp add: same_graph_def)
    have "same_graph s s' \<and> heap s' x = heap s x"
    proof (rule start_consumers_inv [OF c, where P = "\<lambda>t. same_graph s t \<and> heap t x = heap s x"])
      show "same_graph s s1 \<and> heap s1 x = heap s x" using g1 h1 by simp
    next
      fix c t assume c: "c \<in> set (consumers (heap s1 a))" and t: "same_graph s t \<and> heap t x = heap s x"
      have "x \<noteq> c" using c cs Suc.prems(2) consumer_in_reach [of c s a] by auto
      then show "same_graph s (configure a c t) \<and> heap (configure a c t) x = heap s x"
        using t by (auto simp: configure_other intro: same_graph_trans)
    next
      fix c t r t'
      assume c: "c \<in> set (consumers (heap s1 a))" and t: "same_graph s t \<and> heap t x = heap s x"
        and st: "start H n c t = Inr (r, t')"
      have "x \<notin> reach t c" using c cs Suc.prems(2) reach_consumer [of c s a] t
        by (auto simp: same_graph_reach)
      with Suc.IH [OF st] have "heap t' x = heap t x" by simp
      moreover have "same_graph t t'" using st by (rule start_same_graph)
      ultimately show "same_graph s t' \<and> heap t' x = heap s x"
        using t by (auto intro: same_graph_trans)
    next
      fix t t'
      assume t: "same_graph s t \<and> heap t x = heap s x" and st: "stop H n a t = Inr t'"
      have "x \<notin> reach t a" using Suc.prems(2) t by (auto simp: same_graph_reach)
      with stop_frame [OF st] have "heap t' x = heap t x" by simp
      moreover have "same_graph t t'" using st by (rule stop_same_graph)
      ultimately show "same_graph s t' \<and> heap t' x = heap s x"
        using t by (auto intro: same_graph_trans)
    qed
    then show ?thesis by simp
  qed
qed

subsection \<open>Cycles\<close>

text \<open>
  \<open>stop\<close> visits every consumer before anything else, so it does not return on a node
  that reaches a cycle; \<open>start\<close> on such a node returns only if the node's own part
  fails. A \<open>start\<close> that got past the node's own part and returned has therefore left
  the node's settings to the node itself.
\<close>

lemma same_graph_loops: "same_graph s t \<Longrightarrow> loops t a = loops s a"
  by (simp add: loops_def same_graph_reach same_graph_rel)

lemma loops_consumer:
  assumes "loops s a"
  shows "\<exists>c \<in> set (consumers (heap s a)). loops s c"
proof -
  from assms obtain y where y: "(a, y) \<in> (consumer_rel s)\<^sup>*" and yy: "(y, y) \<in> (consumer_rel s)\<^sup>+"
    by (auto simp: loops_def reach_def)
  have "(a, y) \<in> (consumer_rel s)\<^sup>+"
  proof (cases "a = y")
    case True
    with yy show ?thesis by simp
  next
    case False
    with y show ?thesis by (auto dest: rtranclD)
  qed
  then obtain c where c: "(a, c) \<in> consumer_rel s" and cy: "(c, y) \<in> (consumer_rel s)\<^sup>*"
    by (auto dest: tranclD)
  from c have "c \<in> set (consumers (heap s a))" by (simp add: consumer_rel_def)
  moreover from cy yy have "loops s c" by (auto simp: loops_def reach_def)
  ultimately show ?thesis by blast
qed

lemma no_loop_consumer:
  assumes "\<not> loops s a" and "c \<in> set (consumers (heap s a))"
  shows "a \<notin> reach s c"
proof
  assume "a \<in> reach s c"
  then have "(c, a) \<in> (consumer_rel s)\<^sup>*" by (simp add: reach_def)
  moreover have "(a, c) \<in> consumer_rel s" using assms(2) by (simp add: consumer_rel_def)
  ultimately have "(a, a) \<in> (consumer_rel s)\<^sup>+" by (rule rtrancl_into_trancl2 [rotated])
  then have "loops s a" by (auto simp: loops_def)
  with assms(1) show False by simp
qed

lemma stop_consumers_visits:
  assumes "stop_consumers f cs s = Inr s'" and "c \<in> set cs" and "P s"
    and "\<And>d t t'. d \<in> set cs \<Longrightarrow> P t \<Longrightarrow> f d t = Inr t' \<Longrightarrow> P t'"
  shows "\<exists>t t'. P t \<and> f c t = Inr t'"
  using assms
proof (induction cs arbitrary: s)
  case Nil
  then show ?case by simp
next
  case (Cons d cs)
  from Cons.prems(1) obtain s1 where d: "f d s = Inr s1" and r: "stop_consumers f cs s1 = Inr s'"
    by (auto split: sum.splits)
  show ?case
  proof (cases "c = d")
    case True
    with d Cons.prems(3) show ?thesis by blast
  next
    case False
    with Cons.prems(2) have c: "c \<in> set cs" by simp
    have p1: "P s1" by (rule Cons.prems(4) [OF _ Cons.prems(3) d]) simp
    show ?thesis
    proof (rule Cons.IH [OF r c p1])
      fix e t t' assume "e \<in> set cs" "P t" "f e t = Inr t'"
      then show "P t'" using Cons.prems(4) [of e t t'] by simp
    qed
  qed
qed

lemma stop_loops: "loops s a \<Longrightarrow> stop H n a s \<noteq> Inr s'"
proof (induction n arbitrary: a s s')
  case 0
  then show ?case by simp
next
  case (Suc n)
  show ?case
  proof
    assume "stop H (Suc n) a s = Inr s'"
    then obtain s1 where l: "stop_consumers (stop H n) (consumers (heap s a)) s = Inr s1"
      by (auto split: sum.splits)
    from loops_consumer [OF Suc.prems] obtain c
      where c: "c \<in> set (consumers (heap s a))" and lc: "loops s c" by blast
    have "\<exists>t t'. same_graph s t \<and> stop H n c t = Inr t'"
      by (rule stop_consumers_visits [OF l c, where P = "same_graph s"])
         (auto intro: same_graph_trans dest: stop_same_graph)
    then obtain t t' where g: "same_graph s t" and st: "stop H n c t = Inr t'" by blast
    from g lc have "loops t c" by (simp add: same_graph_loops)
    from Suc.IH [OF this] st show False by blast
  qed
qed

lemma start_consumers_outcome:
  assumes "start_consumers f g a cs s = Inr (r, s')" and "P s"
    and "\<And>c t. c \<in> set cs \<Longrightarrow> P t \<Longrightarrow> P (configure a c t)"
    and "\<And>c t r t'. c \<in> set cs \<Longrightarrow> P t \<Longrightarrow> f c t = Inr (r, t') \<Longrightarrow> P t'"
  shows "(\<not> r \<and> (\<exists>t. P t \<and> g t = Inr s')) \<or>
         (r \<and> (\<forall>d \<in> set cs. \<exists>t t'. P t \<and> f d t = Inr (True, t')))"
  using assms
proof (induction cs arbitrary: s)
  case Nil
  then show ?case by simp
next
  case (Cons c cs)
  from Cons.prems(1) obtain ok s1 where c: "f c (configure a c s) = Inr (ok, s1)"
    by (auto split: sum.splits)
  have p0: "P (configure a c s)" by (rule Cons.prems(3) [OF _ Cons.prems(2)]) simp
  have p1: "P s1" by (rule Cons.prems(4) [OF _ p0 c]) simp
  show ?case
  proof (cases ok)
    case False
    with Cons.prems(1) c have "g s1 = Inr s'" and "\<not> r" by (auto split: sum.splits)
    with p1 show ?thesis by blast
  next
    case True
    with Cons.prems(1) c have r: "start_consumers f g a cs s1 = Inr (r, s')" by simp
    have "(\<not> r \<and> (\<exists>t. P t \<and> g t = Inr s')) \<or>
          (r \<and> (\<forall>d \<in> set cs. \<exists>t t'. P t \<and> f d t = Inr (True, t')))"
    proof (rule Cons.IH [OF r p1])
      fix d t assume "d \<in> set cs" "P t"
      then show "P (configure a d t)" using Cons.prems(3) [of d t] by simp
    next
      fix d t r t' assume "d \<in> set cs" "P t" "f d t = Inr (r, t')"
      then show "P t'" using Cons.prems(4) [of d t r t'] by simp
    qed
    moreover have "\<exists>t t'. P t \<and> f c t = Inr (True, t')" using p0 c True by auto
    ultimately show ?thesis by auto
  qed
qed

lemma start_loops:
  "loops s a \<Longrightarrow> start H n a s = Inr (r, s') \<Longrightarrow> \<not> r \<and> start_local H a s = Inr (False, s')"
proof (induction n arbitrary: a s r s')
  case 0
  then show ?case by simp
next
  case (Suc n)
  from Suc.prems(2) obtain ok s1 where l: "start_local H a s = Inr (ok, s1)"
    by (auto split: sum.splits)
  show ?case
  proof (cases ok)
    case False
    with Suc.prems(2) l show ?thesis by simp
  next
    case True
    with Suc.prems(2) l have
      c: "start_consumers (start H n) (stop H n a) a (consumers (heap s1 a)) s1 = Inr (r, s')"
      by simp
    have g1: "same_graph s s1" using l by (rule start_local_graph)
    have "(\<not> r \<and> (\<exists>t. same_graph s t \<and> stop H n a t = Inr s')) \<or>
          (r \<and> (\<forall>d \<in> set (consumers (heap s1 a)). \<exists>t t'. same_graph s t \<and> start H n d t = Inr (True, t')))"
      by (rule start_consumers_outcome [OF c, where P = "same_graph s"])
         (auto intro: g1 same_graph_trans configure_same_graph dest: start_same_graph)
    then have False
    proof
      assume "\<not> r \<and> (\<exists>t. same_graph s t \<and> stop H n a t = Inr s')"
      then obtain t where "same_graph s t" and st: "stop H n a t = Inr s'" by blast
      with Suc.prems(1) have "loops t a" by (simp add: same_graph_loops)
      from stop_loops [OF this] st show False by blast
    next
      assume v: "r \<and> (\<forall>d \<in> set (consumers (heap s1 a)). \<exists>t t'. same_graph s t \<and> start H n d t = Inr (True, t'))"
      from loops_consumer [OF Suc.prems(1)] obtain d
        where d: "d \<in> set (consumers (heap s a))" and ld: "loops s d" by blast
      from d g1 have "d \<in> set (consumers (heap s1 a))" by (simp add: same_graph_def)
      with v obtain t t' where g: "same_graph s t" and st: "start H n d t = Inr (True, t')" by blast
      from g ld have "loops t d" by (simp add: same_graph_loops)
      from Suc.IH [OF this st] show False by simp
    qed
    then show ?thesis ..
  qed
qed

lemma start_no_loop:
  "start_local H a s = Inr (True, s1) \<Longrightarrow> start H n a s = Inr (r, s') \<Longrightarrow> \<not> loops s a"
  using start_loops [of s a H n r s'] by auto

lemma stop_self_settings [simp]: "settings (heap (stop_self H a s) x) = settings (heap s x)"
  by (simp add: stop_self_def settings_def Let_def)

lemma stop_settings: "stop H n a s = Inr s' \<Longrightarrow> settings (heap s' x) = settings (heap s x)"
proof (induction n arbitrary: a s s')
  case 0
  then show ?case by simp
next
  case (Suc n)
  from Suc.prems obtain s1 where
    l: "stop_consumers (stop H n) (consumers (heap s a)) s = Inr s1" and s': "s' = stop_self H a s1"
    by (auto split: sum.splits)
  have "settings (heap s1 x) = settings (heap s x)"
    by (rule stop_consumers_inv [OF l, where P = "\<lambda>t. settings (heap t x) = settings (heap s x)"])
       (auto dest: Suc.IH)
  then show ?case by (simp add: s')
qed

lemma start_settings_self:
  assumes l: "start_local H a s = Inr (True, s1)" and st: "start H n a s = Inr (r, s')"
  shows "settings (heap s' a) = settings (heap s1 a)"
proof -
  obtain m where n: "n = Suc m" using st by (cases n) auto
  from st l have
    c: "start_consumers (start H m) (stop H m a) a (consumers (heap s1 a)) s1 = Inr (r, s')"
    by (simp add: n)
  have nl: "\<not> loops s a" using l st by (rule start_no_loop)
  have g1: "same_graph s s1" using l by (rule start_local_graph)
  have "same_graph s s' \<and> settings (heap s' a) = settings (heap s1 a)"
  proof (rule start_consumers_inv [OF c,
        where P = "\<lambda>t. same_graph s t \<and> settings (heap t a) = settings (heap s1 a)"])
    show "same_graph s s1 \<and> settings (heap s1 a) = settings (heap s1 a)" using g1 by simp
  next
    fix c t
    assume c: "c \<in> set (consumers (heap s1 a))"
      and t: "same_graph s t \<and> settings (heap t a) = settings (heap s1 a)"
    from c g1 have "c \<in> set (consumers (heap s a))" by (simp add: same_graph_def)
    from no_loop_consumer [OF nl this] have "a \<noteq> c" by auto
    then show "same_graph s (configure a c t) \<and> settings (heap (configure a c t) a) = settings (heap s1 a)"
      using t by (auto simp: configure_other intro: same_graph_trans)
  next
    fix c t r t'
    assume c: "c \<in> set (consumers (heap s1 a))"
      and t: "same_graph s t \<and> settings (heap t a) = settings (heap s1 a)"
      and sc: "start H m c t = Inr (r, t')"
    from c g1 have "c \<in> set (consumers (heap s a))" by (simp add: same_graph_def)
    from no_loop_consumer [OF nl this] t have "a \<notin> reach t c" by (auto simp: same_graph_reach)
    with start_frame [OF sc] have "heap t' a = heap t a" by simp
    moreover have "same_graph t t'" using sc by (rule start_same_graph)
    ultimately show "same_graph s t' \<and> settings (heap t' a) = settings (heap s1 a)"
      using t by (auto intro: same_graph_trans)
  next
    fix t t'
    assume t: "same_graph s t \<and> settings (heap t a) = settings (heap s1 a)"
      and sp: "stop H m a t = Inr t'"
    show "same_graph s t' \<and> settings (heap t' a) = settings (heap s1 a)"
      using t stop_settings [OF sp, of a] stop_same_graph [OF sp] by (auto intro: same_graph_trans)
  qed
  then show ?thesis by simp
qed

subsection \<open>run\<close>

lemma run_consumers_inv:
  assumes "run_consumers f a cs s = Inr (r, s')" and "P s"
    and "\<And>c t r t'. c \<in> set cs \<Longrightarrow> P t \<Longrightarrow> f c (BufferOf a) t = Inr (r, t') \<Longrightarrow> P t'"
  shows "P s'"
  using assms
proof (induction cs arbitrary: s)
  case Nil
  then show ?case by simp
next
  case (Cons c cs)
  from Cons.prems(1) obtain ok s1 where c: "f c (BufferOf a) s = Inr (ok, s1)"
    by (auto split: sum.splits)
  have p1: "P s1" by (rule Cons.prems(3) [OF _ Cons.prems(2) c]) simp
  show ?case
  proof (cases ok)
    case False
    with Cons.prems(1) c p1 show ?thesis by simp
  next
    case True
    with Cons.prems(1) c have r: "run_consumers f a cs s1 = Inr (r, s')" by simp
    show ?thesis
    proof (rule Cons.IH [OF r p1])
      fix d t r t' assume "d \<in> set cs" "P t" "f d (BufferOf a) t = Inr (r, t')"
      then show "P t'" using Cons.prems(3) [of d t r t'] by simp
    qed
  qed
qed

lemma run_local_other:
  "run_local H a inb s = Inr (r, s') \<Longrightarrow> x \<noteq> a \<Longrightarrow> heap s' x = heap s x"
  by (auto simp: run_local_def size_buffer_def call_process_def Let_def split: prod.splits if_splits)

lemma run_local_settings:
  "run_local H a inb s = Inr (r, s') \<Longrightarrow> settings (heap s' x) = settings (heap s x)"
  by (auto simp: run_local_def size_buffer_def call_process_def Let_def settings_def split: prod.splits if_splits)

lemma run_local_graph:
  "run_local H a inb s = Inr (r, s') \<Longrightarrow> same_graph s s'"
  by (auto simp: run_local_def size_buffer_def call_process_def Let_def same_graph_def split: prod.splits if_splits)

lemma run_local_running:
  "run_local H a inb s = Inr (r, s') \<Longrightarrow> isRunning (heap s' x) = isRunning (heap s x)"
  by (auto simp: run_local_def size_buffer_def call_process_def Let_def split: prod.splits if_splits)

lemma run_same_graph: "run H n a inb s = Inr (r, s') \<Longrightarrow> same_graph s s'"
proof (induction n arbitrary: a inb s r s')
  case 0
  then show ?case by simp
next
  case (Suc n)
  show ?case
  proof (cases "isRunning (heap s a)")
    case False
    with Suc.prems show ?thesis by simp
  next
    case True
    with Suc.prems obtain ok s1 where l: "run_local H a inb s = Inr (ok, s1)"
      by (auto split: sum.splits)
    have g1: "same_graph s s1" using l by (rule run_local_graph)
    show ?thesis
    proof (cases ok)
      case False
      with Suc.prems True l g1 show ?thesis by simp
    next
      case ok: True
      with Suc.prems True l have
        c: "run_consumers (run H n) a (consumers (heap s1 a)) s1 = Inr (r, s')" by simp
      show ?thesis
        by (rule run_consumers_inv [OF c, where P = "same_graph s"])
           (auto intro: g1 same_graph_trans dest: Suc.IH)
    qed
  qed
qed

lemma run_settings:
  "run H n a inb s = Inr (r, s') \<Longrightarrow> settings (heap s' x) = settings (heap s x)"
proof (induction n arbitrary: a inb s r s')
  case 0
  then show ?case by simp
next
  case (Suc n)
  show ?case
  proof (cases "isRunning (heap s a)")
    case False
    with Suc.prems show ?thesis by simp
  next
    case True
    with Suc.prems obtain ok s1 where l: "run_local H a inb s = Inr (ok, s1)"
      by (auto split: sum.splits)
    have g1: "settings (heap s1 x) = settings (heap s x)" using l by (rule run_local_settings)
    show ?thesis
    proof (cases ok)
      case False
      with Suc.prems True l g1 show ?thesis by simp
    next
      case ok: True
      with Suc.prems True l have
        c: "run_consumers (run H n) a (consumers (heap s1 a)) s1 = Inr (r, s')" by simp
      show ?thesis
        by (rule run_consumers_inv [OF c, where P = "\<lambda>t. settings (heap t x) = settings (heap s x)"])
           (auto intro: g1 dest: Suc.IH)
    qed
  qed
qed

lemma run_running:
  "run H n a inb s = Inr (r, s') \<Longrightarrow> isRunning (heap s' x) = isRunning (heap s x)"
proof (induction n arbitrary: a inb s r s')
  case 0
  then show ?case by simp
next
  case (Suc n)
  show ?case
  proof (cases "isRunning (heap s a)")
    case False
    with Suc.prems show ?thesis by simp
  next
    case True
    with Suc.prems obtain ok s1 where l: "run_local H a inb s = Inr (ok, s1)"
      by (auto split: sum.splits)
    have g1: "isRunning (heap s1 x) = isRunning (heap s x)" using l by (rule run_local_running)
    show ?thesis
    proof (cases ok)
      case False
      with Suc.prems True l g1 show ?thesis by simp
    next
      case ok: True
      with Suc.prems True l have
        c: "run_consumers (run H n) a (consumers (heap s1 a)) s1 = Inr (r, s')" by simp
      show ?thesis
      proof (rule run_consumers_inv [OF c, where P = "\<lambda>t. isRunning (heap t x) = isRunning (heap s x)"])
        show "isRunning (heap s1 x) = isRunning (heap s x)" by (rule g1)
      next
        fix c t r t'
        assume t: "isRunning (heap t x) = isRunning (heap s x)"
          and st: "run H n c (BufferOf a) t = Inr (r, t')"
        from Suc.IH [OF st] t show "isRunning (heap t' x) = isRunning (heap s x)" by simp
      qed
    qed
  qed
qed

lemma run_frame:
  "run H n a inb s = Inr (r, s') \<Longrightarrow> x \<notin> reach s a \<Longrightarrow> heap s' x = heap s x"
proof (induction n arbitrary: a inb s r s')
  case 0
  then show ?case by simp
next
  case (Suc n)
  show ?case
  proof (cases "isRunning (heap s a)")
    case False
    with Suc.prems show ?thesis by simp
  next
    case True
    with Suc.prems obtain ok s1 where l: "run_local H a inb s = Inr (ok, s1)"
      by (auto split: sum.splits)
    have g1: "same_graph s s1" using l by (rule run_local_graph)
    have xa: "x \<noteq> a" using Suc.prems(2) by auto
    have h1: "heap s1 x = heap s x" using l xa by (rule run_local_other)
    show ?thesis
    proof (cases ok)
      case False
      with Suc.prems True l h1 show ?thesis by simp
    next
      case ok: True
      with Suc.prems True l have
        c: "run_consumers (run H n) a (consumers (heap s1 a)) s1 = Inr (r, s')" by simp
      have cs: "consumers (heap s1 a) = consumers (heap s a)" using g1 by (simp add: same_graph_def)
      have "same_graph s s' \<and> heap s' x = heap s x"
      proof (rule run_consumers_inv [OF c, where P = "\<lambda>t. same_graph s t \<and> heap t x = heap s x"])
        show "same_graph s s1 \<and> heap s1 x = heap s x" using g1 h1 by simp
      next
        fix c t r t'
        assume c: "c \<in> set (consumers (heap s1 a))" and t: "same_graph s t \<and> heap t x = heap s x"
          and st: "run H n c (BufferOf a) t = Inr (r, t')"
        have "x \<notin> reach t c" using c cs Suc.prems(2) reach_consumer [of c s a] t
          by (auto simp: same_graph_reach)
        with Suc.IH [OF st] have "heap t' x = heap t x" by simp
        moreover have "same_graph t t'" using st by (rule run_same_graph)
        ultimately show "same_graph s t' \<and> heap t' x = heap s x"
          using t by (auto intro: same_graph_trans)
      qed
      then show ?thesis by simp
    qed
  qed
qed

subsection \<open>Divisions and rates\<close>

lemma returned_final: "returned res = Some ok \<Longrightarrow> res = Inr (ok, final res)"
  by (auto simp: returned_def final_def split: sum.splits)

lemma word_div_nonzero: "(y :: 'a::len word) \<noteq> 0 \<Longrightarrow> y \<le> x \<Longrightarrow> x div y \<noteq> 0"
proof
  assume y: "y \<noteq> 0" and le: "y \<le> x" and z: "x div y = 0"
  from z have "unat x div unat y = 0" by (metis unat_div unat_0)
  moreover have "0 < unat y" using y by (simp add: unat_gt_0)
  moreover have "unat y \<le> unat x" using le by (simp add: word_le_nat_alt)
  ultimately show False by (simp add: div_eq_0_iff)
qed

lemma verify_rates_div:
  "verify_rates H a s = Inl e \<longleftrightarrow> e = DivByZero \<and> decimation (heap s a) = 0"
  by (auto simp: verify_rates_def Let_def)

lemma start_local_div:
  "start_local H a s = Inl e \<longleftrightarrow>
     e = DivByZero \<and> fst (init H a (seed_output (heap s a))) \<and>
     (inputSampleRate (heap s a) = 0 \<or> fst (snd (init H a (seed_output (heap s a)))) = 0)"
  by (auto simp: start_local_def Let_def verify_rates_div seed_output_def word_div_nonzero
           split: prod.splits)

lemma run_local_div:
  "run_local H a inb s = Inl e \<longleftrightarrow>
     e = DivByZero \<and> (inputChannels (heap s a) = 0 \<or> decimation (heap s a) = 0)"
  by (auto simp: run_local_def size_buffer_def call_process_def Let_def split: prod.splits)

lemma start_local_rates:
  assumes "fst (init H a (seed_output (heap s a)))" and "start_local H a s = Inr (ok, s1)"
  shows "inputSampleRate (heap s1 a) = inputSampleRate (heap s a)"
    and "outputSampleRate (heap s1 a) = fst (snd (init H a (seed_output (heap s a))))"
    and "outputSampleRate (heap s1 a) \<le> inputSampleRate (heap s1 a) \<Longrightarrow>
           decimation (heap s1 a) = inputSampleRate (heap s1 a) div outputSampleRate (heap s1 a) \<and>
           interpolation (heap s1 a) = 1"
    and "\<not> outputSampleRate (heap s1 a) \<le> inputSampleRate (heap s1 a) \<Longrightarrow>
           interpolation (heap s1 a) = outputSampleRate (heap s1 a) div inputSampleRate (heap s1 a) \<and>
           decimation (heap s1 a) = 1"
    and "ok \<longleftrightarrow> inputSampleRate (heap s1 a) * interpolation (heap s1 a) div decimation (heap s1 a)
                 = outputSampleRate (heap s1 a)"
    and "decimation (heap s1 a) \<noteq> 0"
  using assms
  by (auto simp: start_local_def Let_def verify_rates_def seed_output_def word_div_nonzero
           split: prod.splits if_splits)

text \<open>The definitions a concrete run is evaluated with.\<close>

lemmas eval_defs = start_local_def verify_rates_def stage_hooks_def fresh_state_def DspBlock_def
  hook_up_def put_def record_call_def configure_def setSampleRate_def setChannels_def
  stop_self_def seed_output_def Let_def returned_def final_def run_local_def resize_def
  inframes_of_def outframes_of_def connect_def
  size_buffer_def call_process_def

lemma start_input_self:
  assumes "start H n a s = Inr (r, s')"
  shows "inputSampleRate (heap s' a) = inputSampleRate (heap s a) \<and>
         inputChannels (heap s' a) = inputChannels (heap s a)"
proof -
  obtain m where n: "n = Suc m" using assms by (cases n) auto
  from assms obtain ok s1 where l: "start_local H a s = Inr (ok, s1)"
    by (auto simp: n split: sum.splits)
  have "settings (heap s' a) = settings (heap s1 a)"
  proof (cases ok)
    case True
    with l assms show ?thesis by (auto intro: start_settings_self)
  next
    case False
    with l assms show ?thesis by (simp add: n)
  qed
  with start_local_input [OF l, of a] show ?thesis by (simp add: settings_def)
qed

subsection \<open>Failure of a consumer\<close>

lemma start_consumers_failure:
  "start_consumers f g a cs s = Inr (False, s') \<Longrightarrow>
     \<exists>c \<in> set cs. \<exists>t0 t. f c t0 = Inr (False, t) \<and> g t = Inr s'"
proof (induction cs arbitrary: s)
  case Nil
  then show ?case by simp
next
  case (Cons c cs)
  from Cons.prems obtain ok s1 where c: "f c (configure a c s) = Inr (ok, s1)"
    by (auto split: sum.splits)
  show ?case
  proof (cases ok)
    case False
    with Cons.prems c have "g s1 = Inr s'" by (auto split: sum.splits)
    with c False show ?thesis by auto
  next
    case True
    with Cons.prems c have "start_consumers f g a cs s1 = Inr (False, s')" by simp
    from Cons.IH [OF this] show ?thesis by auto
  qed
qed

lemma fan_out_consumers: "consumers (heap fan_out 0) = [1, 2]"
  by (simp add: fan_out_def eval_defs)

lemma start_local_mismatch_effect:
  assumes "start_local H a s = Inr (False, s1)" and "fst (init H a (seed_output (heap s a)))"
  shows "isRunning (heap s1 a) = isRunning (heap s a) \<and>
         trace s1 = trace s @ [InitCall a, DeinitCall a]"
  using assms
  by (auto simp: start_local_def Let_def verify_rates_def seed_output_def
           split: prod.splits if_splits)

lemma word_div_div_exact:
  fixes x y :: "'a::len word"
  assumes "y \<noteq> 0" and "y \<le> x" and "unat y dvd unat x"
  shows "x * 1 div (x div y) = y"
proof -
  have py: "0 < unat y" using assms(1) by (simp add: unat_gt_0)
  have le: "unat y \<le> unat x" using assms(2) by (simp add: word_le_nat_alt)
  from assms(3) obtain k where k: "unat x = unat y * k" by (auto simp: dvd_def)
  have pk: "0 < k" using k py le by (cases k) simp_all
  have "unat x div unat y = k" using k py by simp
  moreover have "unat x div k = unat y" using k pk by simp
  ultimately have "unat (x div (x div y)) = unat y" by (simp add: unat_div)
  then show ?thesis by (simp add: word_unat_eq_iff)
qed

lemma word_mult_div_exact:
  fixes x y :: "'a::len word"
  assumes "x \<noteq> 0"
  shows "x * (y div x) div 1 = y \<longleftrightarrow> unat x dvd unat y"
proof -
  have px: "0 < unat x" using assms by (simp add: unat_gt_0)
  have "unat x * (unat y div unat x) \<le> unat y" by simp
  also have "unat y < 2 ^ LENGTH('a)" by (rule unsigned_less)
  finally have "unat x * unat (y div x) < 2 ^ LENGTH('a)" by (simp add: unat_div)
  then have m: "unat (x * (y div x)) = unat x * (unat y div unat x)"
    using unat_mult_lem [of x "y div x"] by (simp add: unat_div)
  have "x * (y div x) = y \<longleftrightarrow> unat x * (unat y div unat x) = unat y"
    by (simp add: word_unat_eq_iff m)
  also have "\<dots> \<longleftrightarrow> unat x dvd unat y"
  proof
    assume "unat x * (unat y div unat x) = unat y"
    then show "unat x dvd unat y" by (metis dvd_triv_left)
  next
    assume "unat x dvd unat y"
    then show "unat x * (unat y div unat x) = unat y" by simp
  qed
  finally show ?thesis by simp
qed

lemma rate_check_integer_related:
  fixes x y :: uint
  assumes "x \<noteq> 0" and "y \<noteq> 0" and "integer_related x y"
  shows "(if y \<le> x then x * 1 div (x div y) else x * (y div x) div 1) = y"
proof (cases "y \<le> x")
  case True
  have dv: "unat y dvd unat x"
  proof (cases "unat y dvd unat x")
    case False
    with assms(3) have d: "unat x dvd unat y" by (simp add: integer_related_def)
    have "0 < unat y" using assms(2) by (simp add: unat_gt_0)
    with d have "unat x \<le> unat y" by (rule dvd_imp_le)
    moreover have "unat y \<le> unat x" using True by (simp add: word_le_nat_alt)
    ultimately show ?thesis by simp
  qed
  have "x * 1 div (x div y) = y" by (rule word_div_div_exact [OF assms(2) True dv])
  with True show ?thesis by (simp only: if_True)
next
  case False
  have dv: "unat x dvd unat y"
  proof (cases "unat x dvd unat y")
    case f: False
    with assms(3) have d: "unat y dvd unat x" by (simp add: integer_related_def)
    have "0 < unat x" using assms(1) by (simp add: unat_gt_0)
    with d have "unat y \<le> unat x" by (rule dvd_imp_le)
    with False show ?thesis by (simp add: word_le_nat_alt)
  qed
  have "x * (y div x) div 1 = y" using word_mult_div_exact [OF assms(1), of y] dv by blast
  with False show ?thesis by (simp only: if_False)
qed

lemma start_consumers_chain:
  "start_consumers f g a cs s = Inr (ok, s') \<Longrightarrow>
     \<exists>k \<sigma>. k \<le> length cs \<and> \<sigma> 0 = s \<and>
       (\<forall>i<k. f (cs ! i) (configure a (cs ! i) (\<sigma> i)) = Inr (True, \<sigma> (Suc i))) \<and>
       (if ok then k = length cs \<and> s' = \<sigma> k
        else k < length cs \<and>
             (\<exists>t. f (cs ! k) (configure a (cs ! k) (\<sigma> k)) = Inr (False, t) \<and> g t = Inr s'))"
proof (induction cs arbitrary: s)
  case Nil
  then have "ok" and "s' = s" by simp_all
  then show ?case by (intro exI [of _ 0] exI [of _ "\<lambda>i. s"]) simp
next
  case (Cons c cs)
  from Cons.prems obtain r1 s1 where c: "f c (configure a c s) = Inr (r1, s1)"
    by (auto split: sum.splits)
  show ?case
  proof (cases r1)
    case False
    with Cons.prems c have "\<not> ok" and g: "g s1 = Inr s'" by (auto split: sum.splits)
    with c False have
      "0 \<le> length (c # cs) \<and> (\<lambda>i. s) 0 = s \<and>
       (\<forall>i<0. f ((c # cs) ! i) (configure a ((c # cs) ! i) ((\<lambda>i. s) i))
                = Inr (True, (\<lambda>i. s) (Suc i))) \<and>
       (if ok then 0 = length (c # cs) \<and> s' = (\<lambda>i. s) 0
        else 0 < length (c # cs) \<and>
             (\<exists>t. f ((c # cs) ! 0) (configure a ((c # cs) ! 0) ((\<lambda>i. s) 0)) = Inr (False, t) \<and>
                  g t = Inr s'))"
      by simp
    then show ?thesis by (intro exI)
  next
    case True
    with Cons.prems c have "start_consumers f g a cs s1 = Inr (ok, s')" by simp
    from Cons.IH [OF this] obtain k \<sigma> where k: "k \<le> length cs" and z: "\<sigma> 0 = s1"
      and st: "\<forall>i<k. f (cs ! i) (configure a (cs ! i) (\<sigma> i)) = Inr (True, \<sigma> (Suc i))"
      and fin: "if ok then k = length cs \<and> s' = \<sigma> k
                else k < length cs \<and>
                     (\<exists>t. f (cs ! k) (configure a (cs ! k) (\<sigma> k)) = Inr (False, t) \<and> g t = Inr s')"
      by blast
    define \<tau> where "\<tau> = (\<lambda>i. case i of 0 \<Rightarrow> s | Suc j \<Rightarrow> \<sigma> j)"
    have t0: "\<tau> 0 = s" and tS: "\<And>j. \<tau> (Suc j) = \<sigma> j" by (simp_all add: \<tau>_def)
    have 1: "\<forall>i<Suc k. f ((c # cs) ! i) (configure a ((c # cs) ! i) (\<tau> i)) = Inr (True, \<tau> (Suc i))"
    proof (intro allI impI)
      fix i assume i: "i < Suc k"
      show "f ((c # cs) ! i) (configure a ((c # cs) ! i) (\<tau> i)) = Inr (True, \<tau> (Suc i))"
      proof (cases i)
        case 0
        with c True z show ?thesis by (simp add: t0 tS)
      next
        case (Suc j)
        with i st show ?thesis by (simp add: tS)
      qed
    qed
    have 2: "if ok then Suc k = length (c # cs) \<and> s' = \<tau> (Suc k)
        else Suc k < length (c # cs) \<and>
             (\<exists>t. f ((c # cs) ! Suc k) (configure a ((c # cs) ! Suc k) (\<tau> (Suc k))) = Inr (False, t) \<and>
                  g t = Inr s')"
      using fin by (simp add: tS)
    have 3: "Suc k \<le> length (c # cs)" using k by simp
    show ?thesis
      by (rule exI [of _ "Suc k"], rule exI [of _ \<tau>]) (intro conjI 3 t0 1 2)
  qed
qed

subsection \<open>Consumer lists\<close>

lemma same_graph_no_duplicates: "same_graph s t \<Longrightarrow> no_duplicates s \<Longrightarrow> no_duplicates t"
  by (simp add: same_graph_def no_duplicates_def)

lemma hook_up_no_duplicates: "no_duplicates s \<Longrightarrow> no_duplicates (hook_up a blk s)"
  by (simp add: hook_up_def no_duplicates_def)

lemma un_hook_no_duplicates: "no_duplicates s \<Longrightarrow> no_duplicates (un_hook a blk s)"
  by (simp add: un_hook_def no_duplicates_def distinct_removeAll)

lemma hook_up_present: "blk \<in> set (consumers (heap s a)) \<Longrightarrow> hook_up a blk s = s"
  by (simp add: hook_up_def)

subsection \<open>The loops, call by call\<close>

lemma run_consumers_chain:
  "run_consumers f a cs s = Inr (ok, s') \<Longrightarrow>
     \<exists>k \<sigma>. k \<le> length cs \<and> \<sigma> 0 = s \<and>
       (\<forall>i<k. f (cs ! i) (BufferOf a) (\<sigma> i) = Inr (True, \<sigma> (Suc i))) \<and>
       (if ok then k = length cs \<and> s' = \<sigma> k
        else k < length cs \<and> f (cs ! k) (BufferOf a) (\<sigma> k) = Inr (False, s'))"
proof (induction cs arbitrary: s)
  case Nil
  then have "ok" and "s' = s" by simp_all
  then show ?case by (intro exI [of _ 0] exI [of _ "\<lambda>i. s"]) simp
next
  case (Cons c cs)
  from Cons.prems obtain r1 s1 where c: "f c (BufferOf a) s = Inr (r1, s1)"
    by (auto split: sum.splits)
  show ?case
  proof (cases r1)
    case False
    with Cons.prems c have "\<not> ok" and "s' = s1" by simp_all
    with c False have
      "0 \<le> length (c # cs) \<and> (\<lambda>i. s) 0 = s \<and>
       (\<forall>i<0. f ((c # cs) ! i) (BufferOf a) ((\<lambda>i. s) i) = Inr (True, (\<lambda>i. s) (Suc i))) \<and>
       (if ok then 0 = length (c # cs) \<and> s' = (\<lambda>i. s) 0
        else 0 < length (c # cs) \<and> f ((c # cs) ! 0) (BufferOf a) ((\<lambda>i. s) 0) = Inr (False, s'))"
      by simp
    then show ?thesis by (intro exI)
  next
    case True
    with Cons.prems c have "run_consumers f a cs s1 = Inr (ok, s')" by simp
    from Cons.IH [OF this] obtain k \<sigma> where k: "k \<le> length cs" and z: "\<sigma> 0 = s1"
      and st: "\<forall>i<k. f (cs ! i) (BufferOf a) (\<sigma> i) = Inr (True, \<sigma> (Suc i))"
      and fin: "if ok then k = length cs \<and> s' = \<sigma> k
                else k < length cs \<and> f (cs ! k) (BufferOf a) (\<sigma> k) = Inr (False, s')"
      by blast
    define \<tau> where "\<tau> = (\<lambda>i. case i of 0 \<Rightarrow> s | Suc j \<Rightarrow> \<sigma> j)"
    have t0: "\<tau> 0 = s" and tS: "\<And>j. \<tau> (Suc j) = \<sigma> j" by (simp_all add: \<tau>_def)
    have 1: "\<forall>i<Suc k. f ((c # cs) ! i) (BufferOf a) (\<tau> i) = Inr (True, \<tau> (Suc i))"
    proof (intro allI impI)
      fix i assume i: "i < Suc k"
      show "f ((c # cs) ! i) (BufferOf a) (\<tau> i) = Inr (True, \<tau> (Suc i))"
      proof (cases i)
        case 0
        with c True z show ?thesis by (simp add: t0 tS)
      next
        case (Suc j)
        with i st show ?thesis by (simp add: tS)
      qed
    qed
    have 2: "if ok then Suc k = length (c # cs) \<and> s' = \<tau> (Suc k)
        else Suc k < length (c # cs) \<and> f ((c # cs) ! Suc k) (BufferOf a) (\<tau> (Suc k)) = Inr (False, s')"
      using fin by (simp add: tS)
    have 3: "Suc k \<le> length (c # cs)" using k by simp
    show ?thesis
      by (rule exI [of _ "Suc k"], rule exI [of _ \<tau>]) (intro conjI 3 t0 1 2)
  qed
qed

lemma same_graph_ranked: "same_graph s t \<Longrightarrow> ranked rk s \<Longrightarrow> ranked rk t"
  by (simp add: same_graph_def ranked_def)

lemma reach_rank:
  assumes "ranked rk s" and "x \<in> reach s a"
  shows "rk x \<le> rk a"
proof -
  from assms(2) have "(a, x) \<in> (consumer_rel s)\<^sup>*" by (simp add: reach_def)
  then show ?thesis
  proof (induction rule: rtrancl_induct)
    case base
    then show ?case by simp
  next
    case (step y z)
    from step.hyps(2) have "z \<in> set (consumers (heap s y))" by (simp add: consumer_rel_def)
    with assms(1) have "rk z < rk y" by (simp add: ranked_def)
    with step.IH show ?case by simp
  qed
qed

lemma ranked_consumer_apart:
  assumes "ranked rk s" and "c \<in> set (consumers (heap s a))"
  shows "a \<notin> reach s c"
proof
  assume "a \<in> reach s c"
  with assms(1) have "rk a \<le> rk c" by (rule reach_rank)
  moreover from assms have "rk c < rk a" by (simp add: ranked_def)
  ultimately show False by simp
qed

lemma stop_consumers_returns:
  assumes "P s" and "\<And>c t. c \<in> set cs \<Longrightarrow> P t \<Longrightarrow> \<exists>t'. f c t = Inr t' \<and> P t'"
  shows "\<exists>s'. stop_consumers f cs s = Inr s'"
  using assms
proof (induction cs arbitrary: s)
  case Nil
  then show ?case by simp
next
  case (Cons c cs)
  from Cons.prems(2) [of c s] Cons.prems(1) obtain s1 where c: "f c s = Inr s1" and p: "P s1"
    by auto
  have "\<exists>s'. stop_consumers f cs s1 = Inr s'"
  proof (rule Cons.IH [OF p])
    fix d t assume "d \<in> set cs" "P t"
    then show "\<exists>t'. f d t = Inr t' \<and> P t'" using Cons.prems(2) [of d t] by simp
  qed
  with c show ?case by simp
qed

lemma stop_returns: "ranked rk s \<Longrightarrow> rk a < n \<Longrightarrow> \<exists>s'. stop H n a s = Inr s'"
proof (induction n arbitrary: a s)
  case 0
  then show ?case by simp
next
  case (Suc n)
  have "\<exists>s1. stop_consumers (stop H n) (consumers (heap s a)) s = Inr s1"
  proof (rule stop_consumers_returns [where P = "\<lambda>t. ranked rk t \<and> same_graph s t"])
    show "ranked rk s \<and> same_graph s s" using Suc.prems(1) by simp
  next
    fix c t
    assume c: "c \<in> set (consumers (heap s a))" and t: "ranked rk t \<and> same_graph s t"
    from c Suc.prems(1) have "rk c < rk a" by (simp add: ranked_def)
    with Suc.prems(2) have "rk c < n" by simp
    with Suc.IH [of t c] t obtain t' where st: "stop H n c t = Inr t'" by blast
    have "same_graph t t'" using st by (rule stop_same_graph)
    with t st show "\<exists>t'. stop H n c t = Inr t' \<and> ranked rk t' \<and> same_graph s t'"
      by (auto intro: same_graph_ranked same_graph_trans)
  qed
  then show ?case by auto
qed

lemma stop_consumers_no_div:
  assumes "\<And>c t. f c t \<noteq> Inl DivByZero"
  shows "stop_consumers f cs s \<noteq> Inl DivByZero"
proof (induction cs arbitrary: s)
  case Nil
  then show ?case by simp
next
  case (Cons c cs)
  with assms [of c s] show ?case by (cases "f c s") (auto split: sum.splits)
qed

lemma stop_no_div: "stop H n a s \<noteq> Inl DivByZero"
proof (induction n arbitrary: a s)
  case 0
  then show ?case by simp
next
  case (Suc n)
  have "stop_consumers (stop H n) (consumers (heap s a)) s \<noteq> Inl DivByZero"
    by (rule stop_consumers_no_div) (rule Suc.IH)
  then show ?case by (auto split: sum.splits)
qed

lemma ranked_ranked_below: "ranked rk s \<Longrightarrow> ranked_below rk s a"
  by (simp add: ranked_def ranked_below_def)

lemma same_graph_ranked_below: "same_graph s t \<Longrightarrow> ranked_below rk s a \<Longrightarrow> ranked_below rk t a"
  by (simp add: ranked_below_def same_graph_reach) (simp add: same_graph_def)

lemma ranked_below_consumer:
  assumes "ranked_below rk s a" and "c \<in> set (consumers (heap s a))"
  shows "ranked_below rk s c" and "rk c < rk a"
proof -
  from reach_consumer [OF assms(2)] assms(1) show "ranked_below rk s c"
    unfolding ranked_below_def by blast
  from assms reach_self [of a s] show "rk c < rk a"
    unfolding ranked_below_def by blast
qed

lemma stop_returns_below:
  "ranked_below rk s a \<Longrightarrow> rk a < n \<Longrightarrow> \<exists>s'. stop H n a s = Inr s'"
proof (induction n arbitrary: a s)
  case 0
  then show ?case by simp
next
  case (Suc n)
  have "\<exists>s1. stop_consumers (stop H n) (consumers (heap s a)) s = Inr s1"
  proof (rule stop_consumers_returns [where P = "\<lambda>t. same_graph s t"])
    show "same_graph s s" by simp
  next
    fix c t
    assume c: "c \<in> set (consumers (heap s a))" and t: "same_graph s t"
    from ranked_below_consumer [OF Suc.prems(1) c] have b: "ranked_below rk s c"
      and "rk c < rk a" by simp_all
    with Suc.prems(2) have "rk c < n" by simp
    moreover have "ranked_below rk t c" using t b by (rule same_graph_ranked_below)
    ultimately obtain t' where st: "stop H n c t = Inr t'" using Suc.IH [of t c] by blast
    have "same_graph t t'" using st by (rule stop_same_graph)
    with t st show "\<exists>t'. stop H n c t = Inr t' \<and> same_graph s t'"
      by (auto intro: same_graph_trans)
  qed
  then show ?case by auto
qed

lemma reach_closed:
  assumes "a \<in> X" and "\<forall>x \<in> X. set (consumers (heap s x)) \<subseteq> X"
  shows "reach s a \<subseteq> X"
proof
  fix x assume "x \<in> reach s a"
  then have "(a, x) \<in> (consumer_rel s)\<^sup>*" by (simp add: reach_def)
  then show "x \<in> X"
  proof (induction rule: rtrancl_induct)
    case base
    then show ?case by (rule assms(1))
  next
    case (step y z)
    from step.hyps(2) have "z \<in> set (consumers (heap s y))" by (simp add: consumer_rel_def)
    with step.IH assms(2) show ?case by blast
  qed
qed

lemma stop_on_loop: "loops s a \<Longrightarrow> stop H n a s = Inl OutOfFuel"
proof -
  assume l: "loops s a"
  show ?thesis
  proof (cases "stop H n a s")
    case (Inl e)
    with stop_no_div [of H n a s] show ?thesis by (cases e) simp_all
  next
    case (Inr s')
    with stop_loops [OF l, of H n s'] show ?thesis by simp
  qed
qed

lemma stop_consumers_chain:
  "stop_consumers f cs s = Inr s' \<Longrightarrow>
     \<exists>\<sigma>. \<sigma> 0 = s \<and> (\<forall>i<length cs. f (cs ! i) (\<sigma> i) = Inr (\<sigma> (Suc i))) \<and> s' = \<sigma> (length cs)"
proof (induction cs arbitrary: s)
  case Nil
  then show ?case by (intro exI [of _ "\<lambda>i. s"]) simp
next
  case (Cons c cs)
  from Cons.prems obtain s1 where c: "f c s = Inr s1" and r: "stop_consumers f cs s1 = Inr s'"
    by (auto split: sum.splits)
  from Cons.IH [OF r] obtain \<sigma> where z: "\<sigma> 0 = s1"
    and st: "\<forall>i<length cs. f (cs ! i) (\<sigma> i) = Inr (\<sigma> (Suc i))" and fin: "s' = \<sigma> (length cs)"
    by blast
  define \<tau> where "\<tau> = (\<lambda>i. case i of 0 \<Rightarrow> s | Suc j \<Rightarrow> \<sigma> j)"
  have t0: "\<tau> 0 = s" and tS: "\<And>j. \<tau> (Suc j) = \<sigma> j" by (simp_all add: \<tau>_def)
  have 1: "\<forall>i<length (c # cs). f ((c # cs) ! i) (\<tau> i) = Inr (\<tau> (Suc i))"
  proof (intro allI impI)
    fix i assume i: "i < length (c # cs)"
    show "f ((c # cs) ! i) (\<tau> i) = Inr (\<tau> (Suc i))"
    proof (cases i)
      case 0
      with c z show ?thesis by (simp add: t0 tS)
    next
      case (Suc j)
      with i st show ?thesis by (simp add: tS)
    qed
  qed
  have 2: "s' = \<tau> (length (c # cs))" using fin by (simp add: tS)
  show ?case by (rule exI [of _ \<tau>]) (intro conjI t0 1 2)
qed

lemma stop_self_trace:
  "trace (stop_self H a t) = trace t @ (if isRunning (heap t a) then [DeinitCall a] else [])"
  by (simp add: stop_self_def Let_def)

subsection \<open>The size of the buffer\<close>

lemma copy_hooks_keeps_size: "keeps_size (copy_hooks ok) a"
  by (simp del: take_append add: keeps_size_def copy_hooks_def min_def)

lemma length_resize [simp]: "length (resize n xs) = n"
  by (simp add: resize_def)

lemma resize_same: "length xs = n \<Longrightarrow> resize n xs = xs"
  by (simp add: resize_def)

lemma size_buffer_length [simp]: "length (buffer (heap (size_buffer a n s) a)) = n"
  by (simp add: size_buffer_def)

lemma size_buffer_same: "length (buffer (heap s a)) = n \<Longrightarrow> size_buffer a n s = s"
  by (simp add: size_buffer_def)

lemma call_process_length:
  "keeps_size H a \<Longrightarrow>
     length (buffer (heap (snd (call_process H a inb s)) a)) = length (buffer (heap s a))"
proof -
  assume k: "keeps_size H a"
  obtain ok out p where pr: "process H a (heap s a) (deref inb s) = (ok, out, p)"
    by (cases "process H a (heap s a) (deref inb s)") auto
  from k have "length (fst (snd (process H a (heap s a) (deref inb s)))) = length (buffer (heap s a))"
    by (simp add: keeps_size_def)
  with pr show ?thesis by (simp add: call_process_def)
qed

lemma run_local_size:
  assumes "run_local H a inb s = Inr (r, s1)" and "keeps_size H a"
  shows "length (buffer (heap s1 a)) = required_size (heap s a) (length (deref inb s))"
proof -
  let ?n = "required_size (heap s a) (length (deref inb s))"
  from assms(1) have "(r, s1) = call_process H a inb (size_buffer a ?n s)"
    by (simp add: run_local_def Let_def required_size_def split: if_splits)
  then have "s1 = snd (call_process H a inb (size_buffer a ?n s))" by (metis snd_conv)
  with call_process_length [OF assms(2)] show ?thesis by simp
qed

lemma run_self_frame:
  assumes "isRunning (heap s a)" and "run_local H a inb s = Inr (r1, s1)"
    and "\<forall>c \<in> set (consumers (heap s a)). a \<notin> reach s c"
    and "run H n a inb s = Inr (ok, s')"
  shows "heap s' a = heap s1 a"
proof -
  obtain m where n: "n = Suc m" using assms(4) by (cases n) auto
  show ?thesis
  proof (cases r1)
    case False
    with assms n show ?thesis by simp
  next
    case True
    have g1: "same_graph s s1" using assms(2) by (rule run_local_graph)
    then have cs: "consumers (heap s1 a) = consumers (heap s a)" by (simp add: same_graph_def)
    from assms True have
      c: "run_consumers (run H m) a (consumers (heap s a)) s1 = Inr (ok, s')" by (simp add: n cs)
    have "same_graph s s' \<and> heap s' a = heap s1 a"
    proof (rule run_consumers_inv [OF c, where P = "\<lambda>t. same_graph s t \<and> heap t a = heap s1 a"])
      show "same_graph s s1 \<and> heap s1 a = heap s1 a" using g1 by simp
    next
      fix c t r t'
      assume c: "c \<in> set (consumers (heap s a))" and t: "same_graph s t \<and> heap t a = heap s1 a"
        and rc: "run H m c (BufferOf a) t = Inr (r, t')"
      from assms(3) c t have "a \<notin> reach t c" by (auto simp: same_graph_reach)
      with run_frame [OF rc] have "heap t' a = heap t a" by simp
      moreover have "same_graph t t'" using rc by (rule run_same_graph)
      ultimately show "same_graph s t' \<and> heap t' a = heap s1 a"
        using t by (auto intro: same_graph_trans)
    qed
    then show ?thesis by simp
  qed
qed

lemma run_size:
  assumes "isRunning (heap s a)" and "keeps_size H a"
    and "\<forall>c \<in> set (consumers (heap s a)). a \<notin> reach s c"
    and "run H n a inb s = Inr (ok, s')"
  shows "length (buffer (heap s' a)) = required_size (heap s a) (length (deref inb s))"
proof -
  obtain m where n: "n = Suc m" using assms(4) by (cases n) auto
  from assms(1,4) obtain r1 s1 where l: "run_local H a inb s = Inr (r1, s1)"
    by (auto simp: n split: sum.splits)
  from run_self_frame [OF assms(1) l assms(3,4)] run_local_size [OF l assms(2)]
  show ?thesis by simp
qed

lemma required_size_cong:
  "settings b' = settings b \<Longrightarrow> len' div unat (inputChannels b) = len div unat (inputChannels b) \<Longrightarrow>
     required_size b' len' = required_size b len"
  by (simp add: required_size_def settings_def inframes_of_def)

lemma required_size_dvd:
  assumes "unat (outframes_of (inframes_of len (inputChannels b)) (interpolation b) (decimation b))
           * unat (outputChannels b) < 2 ^ 32"
  shows "unat (outputChannels b) dvd required_size b len"
proof -
  let ?f = "outframes_of (inframes_of len (inputChannels b)) (interpolation b) (decimation b)"
  from assms have "unat (?f * outputChannels b) = unat ?f * unat (outputChannels b)"
    using unat_mult_lem [of ?f "outputChannels b"] by simp
  then show ?thesis by (simp add: required_size_def)
qed

subsection \<open>The depth of calls\<close>

text \<open>
  A result other than \<open>OutOfFuel\<close> does not depend on the depth that was allowed: with
  one more level the call returns the same.
\<close>

lemma stop_consumers_mono:
  assumes "\<And>c t t'. f c t = Inr t' \<Longrightarrow> g c t = Inr t'"
  shows "stop_consumers f cs s = Inr s' \<Longrightarrow> stop_consumers g cs s = Inr s'"
proof (induction cs arbitrary: s)
  case Nil
  then show ?case by simp
next
  case (Cons c cs)
  from Cons.prems obtain s1 where c: "f c s = Inr s1" and r: "stop_consumers f cs s1 = Inr s'"
    by (auto split: sum.splits)
  from assms [OF c] Cons.IH [OF r] show ?case by simp
qed

lemma stop_deeper: "stop H n a s = Inr s' \<Longrightarrow> stop H (Suc n) a s = Inr s'"
proof (induction n arbitrary: a s s')
  case 0
  then show ?case by simp
next
  case (Suc n)
  from Suc.prems obtain s1 where
    l: "stop_consumers (stop H n) (consumers (heap s a)) s = Inr s1" and s': "s' = stop_self H a s1"
    by (auto split: sum.splits)
  have "stop_consumers (stop H (Suc n)) (consumers (heap s a)) s = Inr s1"
    using l by (rule stop_consumers_mono [rotated]) (rule Suc.IH)
  then show ?case by (simp add: s')
qed

lemma start_consumers_mono:
  assumes "\<And>c t r t'. f c t = Inr (r, t') \<Longrightarrow> f' c t = Inr (r, t')"
    and "\<And>t t'. g t = Inr t' \<Longrightarrow> g' t = Inr t'"
  shows "start_consumers f g a cs s = Inr (r, s') \<Longrightarrow> start_consumers f' g' a cs s = Inr (r, s')"
proof (induction cs arbitrary: s)
  case Nil
  then show ?case by simp
next
  case (Cons c cs)
  from Cons.prems obtain ok s1 where c: "f c (configure a c s) = Inr (ok, s1)"
    by (auto split: sum.splits)
  note c' = assms(1) [OF c]
  show ?case
  proof (cases ok)
    case False
    with Cons.prems c obtain s2 where g: "g s1 = Inr s2" and e: "r = False" "s' = s2"
      by (auto split: sum.splits)
    from assms(2) [OF g] c' False e show ?thesis by simp
  next
    case True
    with Cons.prems c have "start_consumers f g a cs s1 = Inr (r, s')" by simp
    from Cons.IH [OF this] c' True show ?thesis by simp
  qed
qed

lemma start_deeper: "start H n a s = Inr (r, s') \<Longrightarrow> start H (Suc n) a s = Inr (r, s')"
proof (induction n arbitrary: a s r s')
  case 0
  then show ?case by simp
next
  case (Suc n)
  from Suc.prems obtain ok s1 where l: "start_local H a s = Inr (ok, s1)"
    by (auto split: sum.splits)
  show ?case
  proof (cases ok)
    case False
    with Suc.prems l show ?thesis by simp
  next
    case True
    with Suc.prems l have
      c: "start_consumers (start H n) (stop H n a) a (consumers (heap s1 a)) s1 = Inr (r, s')"
      by simp
    have "start_consumers (start H (Suc n)) (stop H (Suc n) a) a (consumers (heap s1 a)) s1
        = Inr (r, s')"
      using c by (rule start_consumers_mono [rotated 2]) (erule Suc.IH, erule stop_deeper)
    with l True show ?thesis by simp
  qed
qed

lemma run_consumers_mono:
  assumes "\<And>c b t r t'. f c b t = Inr (r, t') \<Longrightarrow> g c b t = Inr (r, t')"
  shows "run_consumers f a cs s = Inr (r, s') \<Longrightarrow> run_consumers g a cs s = Inr (r, s')"
proof (induction cs arbitrary: s)
  case Nil
  then show ?case by simp
next
  case (Cons c cs)
  from Cons.prems obtain ok s1 where c: "f c (BufferOf a) s = Inr (ok, s1)"
    by (auto split: sum.splits)
  note c' = assms [OF c]
  show ?case
  proof (cases ok)
    case False
    with Cons.prems c c' show ?thesis by simp
  next
    case True
    with Cons.prems c have "run_consumers f a cs s1 = Inr (r, s')" by simp
    from Cons.IH [OF this] c' True show ?thesis by simp
  qed
qed

lemma run_deeper: "run H n a inb s = Inr (r, s') \<Longrightarrow> run H (Suc n) a inb s = Inr (r, s')"
proof (induction n arbitrary: a inb s r s')
  case 0
  then show ?case by simp
next
  case (Suc n)
  show ?case
  proof (cases "isRunning (heap s a)")
    case False
    with Suc.prems show ?thesis by simp
  next
    case True
    with Suc.prems obtain ok s1 where l: "run_local H a inb s = Inr (ok, s1)"
      by (auto split: sum.splits)
    show ?thesis
    proof (cases ok)
      case False
      with Suc.prems True l show ?thesis by simp
    next
      case ok: True
      with Suc.prems True l have
        c: "run_consumers (run H n) a (consumers (heap s1 a)) s1 = Inr (r, s')" by simp
      have "run_consumers (run H (Suc n)) a (consumers (heap s1 a)) s1 = Inr (r, s')"
        using c by (rule run_consumers_mono [rotated]) (rule Suc.IH)
      with True l ok show ?thesis by simp
    qed
  qed
qed

text \<open>
  Where the consumer graph has no cycle, a depth above the rank of the node is enough:
  \<open>stop\<close> returns (\<open>stop_returns\<close>), and \<open>start\<close> and \<open>run\<close> return or divide by
  zero. \<open>start\<close> needs one level more, for the \<open>stop\<close> it calls when a consumer fails.
\<close>

lemma start_consumers_depth:
  assumes "P s" and "\<And>c t. c \<in> set cs \<Longrightarrow> P t \<Longrightarrow> P (configure a c t)"
    and "\<And>c t. c \<in> set cs \<Longrightarrow> P t \<Longrightarrow> f c t \<noteq> Inl OutOfFuel"
    and "\<And>c t r t'. c \<in> set cs \<Longrightarrow> P t \<Longrightarrow> f c t = Inr (r, t') \<Longrightarrow> P t'"
    and "\<And>t. P t \<Longrightarrow> g t \<noteq> Inl OutOfFuel"
  shows "start_consumers f g a cs s \<noteq> Inl OutOfFuel"
  using assms(1,2,3,4)
proof (induction cs arbitrary: s)
  case Nil
  then show ?case by simp
next
  case (Cons c cs)
  have p0: "P (configure a c s)" by (rule Cons.prems(2) [OF _ Cons.prems(1)]) simp
  have f0: "f c (configure a c s) \<noteq> Inl OutOfFuel" by (rule Cons.prems(3) [OF _ p0]) simp
  show ?case
  proof (cases "f c (configure a c s)")
    case (Inl e)
    with f0 show ?thesis by simp
  next
    case (Inr res)
    obtain ok s1 where res: "res = (ok, s1)" by (cases res)
    have fc: "f c (configure a c s) = Inr (ok, s1)" using Inr res by simp
    have p1: "P s1" by (rule Cons.prems(4) [OF _ p0 fc]) simp
    show ?thesis
    proof (cases ok)
      case False
      with Inr res assms(5) [OF p1] show ?thesis by (auto split: sum.splits)
    next
      case True
      have "start_consumers f g a cs s1 \<noteq> Inl OutOfFuel"
      proof (rule Cons.IH [OF p1])
        fix d t assume "d \<in> set cs" "P t"
        then show "P (configure a d t)" using Cons.prems(2) [of d t] by simp
      next
        fix d t assume "d \<in> set cs" "P t"
        then show "f d t \<noteq> Inl OutOfFuel" using Cons.prems(3) [of d t] by simp
      next
        fix d t r t' assume "d \<in> set cs" "P t" "f d t = Inr (r, t')"
        then show "P t'" using Cons.prems(4) [of d t r t'] by simp
      qed
      with Inr res True show ?thesis by simp
    qed
  qed
qed

lemma start_depth: "ranked rk s \<Longrightarrow> Suc (rk a) < n \<Longrightarrow> start H n a s \<noteq> Inl OutOfFuel"
proof (induction n arbitrary: a s)
  case 0
  then show ?case by simp
next
  case (Suc n)
  show ?case
  proof (cases "start_local H a s")
    case (Inl e)
    then have "e = DivByZero" using start_local_div [of H a s e] by simp
    with Inl show ?thesis by simp
  next
    case (Inr res)
    obtain ok s1 where res: "res = (ok, s1)" by (cases res)
    from Inr res have l: "start_local H a s = Inr (ok, s1)" by simp
    have g1: "same_graph s s1" using l by (rule start_local_graph)
    have "start_consumers (start H n) (stop H n a) a (consumers (heap s1 a)) s1 \<noteq> Inl OutOfFuel"
    proof (rule start_consumers_depth [where P = "\<lambda>t. same_graph s t"])
      show "same_graph s s1" by (rule g1)
    next
      fix c t assume "same_graph s t"
      then show "same_graph s (configure a c t)"
        by (rule same_graph_trans) (rule configure_same_graph)
    next
      fix c t assume c: "c \<in> set (consumers (heap s1 a))" and t: "same_graph s t"
      from c g1 have "c \<in> set (consumers (heap s a))" by (simp add: same_graph_def)
      with Suc.prems(1) have "rk c < rk a" by (simp add: ranked_def)
      with Suc.prems(2) have "Suc (rk c) < n" by simp
      moreover have "ranked rk t" using t Suc.prems(1) by (rule same_graph_ranked)
      ultimately show "start H n c t \<noteq> Inl OutOfFuel" by (rule Suc.IH [rotated])
    next
      fix c t r t' assume "same_graph s t" and "start H n c t = Inr (r, t')"
      then show "same_graph s t'" by (auto intro: same_graph_trans dest: start_same_graph)
    next
      fix t assume t: "same_graph s t"
      have "ranked rk t" using t Suc.prems(1) by (rule same_graph_ranked)
      moreover have "rk a < n" using Suc.prems(2) by simp
      ultimately have "\<exists>t'. stop H n a t = Inr t'" by (rule stop_returns)
      then show "stop H n a t \<noteq> Inl OutOfFuel" by auto
    qed
    with l show ?thesis by simp
  qed
qed

lemma run_consumers_depth:
  assumes "P s"
    and "\<And>c t. c \<in> set cs \<Longrightarrow> P t \<Longrightarrow> f c (BufferOf a) t \<noteq> Inl OutOfFuel"
    and "\<And>c t r t'. c \<in> set cs \<Longrightarrow> P t \<Longrightarrow> f c (BufferOf a) t = Inr (r, t') \<Longrightarrow> P t'"
  shows "run_consumers f a cs s \<noteq> Inl OutOfFuel"
  using assms
proof (induction cs arbitrary: s)
  case Nil
  then show ?case by simp
next
  case (Cons c cs)
  have f0: "f c (BufferOf a) s \<noteq> Inl OutOfFuel" by (rule Cons.prems(2) [OF _ Cons.prems(1)]) simp
  show ?case
  proof (cases "f c (BufferOf a) s")
    case (Inl e)
    with f0 show ?thesis by simp
  next
    case (Inr res)
    obtain ok s1 where res: "res = (ok, s1)" by (cases res)
    have fc: "f c (BufferOf a) s = Inr (ok, s1)" using Inr res by simp
    have p1: "P s1" by (rule Cons.prems(3) [OF _ Cons.prems(1) fc]) simp
    show ?thesis
    proof (cases ok)
      case False
      with Inr res show ?thesis by simp
    next
      case True
      have "run_consumers f a cs s1 \<noteq> Inl OutOfFuel"
      proof (rule Cons.IH [OF p1])
        fix d t assume "d \<in> set cs" "P t"
        then show "f d (BufferOf a) t \<noteq> Inl OutOfFuel" using Cons.prems(2) [of d t] by simp
      next
        fix d t r t' assume "d \<in> set cs" "P t" "f d (BufferOf a) t = Inr (r, t')"
        then show "P t'" using Cons.prems(3) [of d t r t'] by simp
      qed
      with Inr res True show ?thesis by simp
    qed
  qed
qed

lemma run_depth: "ranked rk s \<Longrightarrow> rk a < n \<Longrightarrow> run H n a inb s \<noteq> Inl OutOfFuel"
proof (induction n arbitrary: a inb s)
  case 0
  then show ?case by simp
next
  case (Suc n)
  show ?case
  proof (cases "isRunning (heap s a)")
    case False
    then show ?thesis by simp
  next
    case True
    show ?thesis
    proof (cases "run_local H a inb s")
      case (Inl e)
      then have "e = DivByZero" using run_local_div [of H a inb s e] by simp
      with Inl True show ?thesis by simp
    next
      case (Inr res)
      obtain ok s1 where res: "res = (ok, s1)" by (cases res)
      from Inr res have l: "run_local H a inb s = Inr (ok, s1)" by simp
      have g1: "same_graph s s1" using l by (rule run_local_graph)
      have "run_consumers (run H n) a (consumers (heap s1 a)) s1 \<noteq> Inl OutOfFuel"
      proof (rule run_consumers_depth [where P = "\<lambda>t. same_graph s t"])
        show "same_graph s s1" by (rule g1)
      next
        fix c t assume c: "c \<in> set (consumers (heap s1 a))" and t: "same_graph s t"
        from c g1 have "c \<in> set (consumers (heap s a))" by (simp add: same_graph_def)
        with Suc.prems(1) have "rk c < rk a" by (simp add: ranked_def)
        with Suc.prems(2) have "rk c < n" by simp
        moreover have "ranked rk t" using t Suc.prems(1) by (rule same_graph_ranked)
        ultimately show "run H n c (BufferOf a) t \<noteq> Inl OutOfFuel" by (rule Suc.IH [rotated])
      next
        fix c t r t' assume "same_graph s t" and "run H n c (BufferOf a) t = Inr (r, t')"
        then show "same_graph s t'" by (auto intro: same_graph_trans dest: run_same_graph)
      qed
      with True l show ?thesis by simp
    qed
  qed
qed

section \<open>Properties\<close>

text \<open>
  C1: when \<open>start\<close> returns failure although the node's own part succeeded (\<open>init\<close>
  and the rate check), the \<open>start\<close> of one of its consumers returned failure, the state
  returned is the one \<open>stop\<close> of the node itself produced after that, and in it
  neither the node nor any node reachable through consumer lists is running.
\<close>

theorem start_downstream_failure:
  assumes "start_local H a s = Inr (True, s1)" and "start H (Suc n) a s = Inr (False, s')"
  shows "(\<exists>c \<in> set (consumers (heap s a)). \<exists>t0 t.
            start H n c t0 = Inr (False, t) \<and> stop H n a t = Inr s') \<and>
         (\<forall>x \<in> reach s a. \<not> isRunning (heap s' x))"
proof -
  from assms have
    c: "start_consumers (start H n) (stop H n a) a (consumers (heap s1 a)) s1 = Inr (False, s')"
    by simp
  have cs: "consumers (heap s1 a) = consumers (heap s a)"
    using start_local_graph [OF assms(1)] by (simp add: same_graph_def)
  from start_consumers_failure [OF c] cs obtain d t0 t
    where d: "d \<in> set (consumers (heap s a))" and f: "start H n d t0 = Inr (False, t)"
      and st: "stop H n a t = Inr s'" by auto
  have "same_graph s s'" using assms(2) by (rule start_same_graph)
  moreover have "same_graph t s'" using st by (rule stop_same_graph)
  ultimately have "reach t a = reach s a" by (simp add: same_graph_reach [symmetric])
  then have "\<forall>x \<in> reach s a. quiet s' x" using stop_quiets [OF st] by auto
  then have "\<forall>x \<in> reach s a. \<not> isRunning (heap s' x)" by (simp add: quiet_def)
  with d f st show ?thesis by blast
qed

text \<open>Node 0 feeds nodes 1 and 2; node 1 starts, \<open>init\<close> of node 2 fails.\<close>

theorem start_downstream_failure_witness:
  "returned (start_local failing_sink 0 fan_out) = Some True \<and>
   returned (start failing_sink (Suc (Suc (Suc 0))) 0 fan_out) = Some False \<and>
   \<not> isRunning (heap (final (start failing_sink (Suc (Suc (Suc 0))) 0 fan_out)) 0) \<and>
   \<not> isRunning (heap (final (start failing_sink (Suc (Suc (Suc 0))) 0 fan_out)) 1) \<and>
   \<not> isRunning (heap (final (start failing_sink (Suc (Suc (Suc 0))) 0 fan_out)) 2)"
proof -
  have l: "returned (start_local failing_sink 0 fan_out) = Some True"
    by (simp add: failing_sink_def fan_out_def eval_defs)
  have r: "returned (start failing_sink (Suc (Suc (Suc 0))) 0 fan_out) = Some False"
    by (simp add: failing_sink_def fan_out_def eval_defs)
  have "1 \<in> reach fan_out 0" "2 \<in> reach fan_out 0" "0 \<in> reach fan_out 0"
    by (simp_all add: consumer_in_reach fan_out_consumers)
  with start_downstream_failure [OF returned_final [OF l] returned_final [OF r]] l r
  show ?thesis by blast
qed

text \<open>
  C2: if \<open>init\<close> succeeds and \<open>start\<close> returns, the node has the input rate it had, the
  output rate \<open>init\<close> announced, and: if \<open>inputSampleRate >= outputSampleRate\<close> then
  \<open>decimation = inputSampleRate / outputSampleRate\<close> and \<open>interpolation = 1\<close>, else
  \<open>interpolation = outputSampleRate / inputSampleRate\<close> and \<open>decimation = 1\<close>. So
  48000 to 8000 gives decimation 6 and interpolation 1, and 8000 to 48000 gives decimation 1
  and interpolation 6.
\<close>

theorem start_computes_rates:
  assumes "fst (init H a (seed_output (heap s a)))" and "start H n a s = Inr (r, s')"
  shows "inputSampleRate (heap s' a) = inputSampleRate (heap s a) \<and>
         outputSampleRate (heap s' a) = fst (snd (init H a (seed_output (heap s a)))) \<and>
         (if outputSampleRate (heap s' a) \<le> inputSampleRate (heap s' a)
          then decimation (heap s' a) = inputSampleRate (heap s' a) div outputSampleRate (heap s' a) \<and>
               interpolation (heap s' a) = 1
          else interpolation (heap s' a) = outputSampleRate (heap s' a) div inputSampleRate (heap s' a) \<and>
               decimation (heap s' a) = 1) \<and>
         (inputSampleRate (heap s' a) = 48000 \<and> outputSampleRate (heap s' a) = 8000 \<longrightarrow>
            decimation (heap s' a) = 6 \<and> interpolation (heap s' a) = 1) \<and>
         (inputSampleRate (heap s' a) = 8000 \<and> outputSampleRate (heap s' a) = 48000 \<longrightarrow>
            decimation (heap s' a) = 1 \<and> interpolation (heap s' a) = 6)"
proof -
  obtain m where n: "n = Suc m" using assms(2) by (cases n) auto
  from assms(2) obtain ok s1 where l: "start_local H a s = Inr (ok, s1)"
    by (auto simp: n split: sum.splits)
  have "settings (heap s' a) = settings (heap s1 a)"
  proof (cases ok)
    case True
    with l assms(2) show ?thesis by (auto intro: start_settings_self)
  next
    case False
    with l assms(2) show ?thesis by (simp add: n)
  qed
  then have eq: "inputSampleRate (heap s' a) = inputSampleRate (heap s1 a)"
    "outputSampleRate (heap s' a) = outputSampleRate (heap s1 a)"
    "decimation (heap s' a) = decimation (heap s1 a)"
    "interpolation (heap s' a) = interpolation (heap s1 a)"
    by (simp_all add: settings_def)
  note lr = start_local_rates [OF assms(1) l]
  have 1: "inputSampleRate (heap s' a) = inputSampleRate (heap s a)" by (simp add: eq lr(1))
  have 2: "outputSampleRate (heap s' a) = fst (snd (init H a (seed_output (heap s a))))"
    by (simp add: eq lr(2))
  have 3: "if outputSampleRate (heap s' a) \<le> inputSampleRate (heap s' a)
          then decimation (heap s' a) = inputSampleRate (heap s' a) div outputSampleRate (heap s' a) \<and>
               interpolation (heap s' a) = 1
          else interpolation (heap s' a) = outputSampleRate (heap s' a) div inputSampleRate (heap s' a) \<and>
               decimation (heap s' a) = 1"
    using lr(3,4) by (simp add: eq)
  have 4: "inputSampleRate (heap s' a) = 48000 \<and> outputSampleRate (heap s' a) = 8000 \<longrightarrow>
            decimation (heap s' a) = 6 \<and> interpolation (heap s' a) = 1"
    using 3 by (auto split: if_splits)
  have 5: "inputSampleRate (heap s' a) = 8000 \<and> outputSampleRate (heap s' a) = 48000 \<longrightarrow>
            decimation (heap s' a) = 1 \<and> interpolation (heap s' a) = 6"
    using 3 by (auto split: if_splits)
  from 1 2 3 4 5 show ?thesis by blast
qed

text \<open>The two examples of the claim, each on a single node started from its defaults.\<close>

theorem start_computes_rates_witness:
  "returned (start (stage_hooks (\<lambda>a. True) (\<lambda>a r. 8000)) (Suc 0) 0 fresh_state) = Some True \<and>
   decimation (heap (final (start (stage_hooks (\<lambda>a. True) (\<lambda>a r. 8000)) (Suc 0) 0 fresh_state)) 0) = 6 \<and>
   interpolation (heap (final (start (stage_hooks (\<lambda>a. True) (\<lambda>a r. 8000)) (Suc 0) 0 fresh_state)) 0) = 1 \<and>
   returned (start (stage_hooks (\<lambda>a. True) (\<lambda>a r. 48000)) (Suc 0) 0 (setSampleRate 0 8000 fresh_state))
     = Some True \<and>
   decimation (heap (final (start (stage_hooks (\<lambda>a. True) (\<lambda>a r. 48000)) (Suc 0) 0
     (setSampleRate 0 8000 fresh_state))) 0) = 1 \<and>
   interpolation (heap (final (start (stage_hooks (\<lambda>a. True) (\<lambda>a r. 48000)) (Suc 0) 0
     (setSampleRate 0 8000 fresh_state))) 0) = 6"
proof -
  let ?H = "stage_hooks (\<lambda>a. True) (\<lambda>a r. 8000)"
  let ?K = "stage_hooks (\<lambda>a. True) (\<lambda>a r. 48000)"
  let ?t = "setSampleRate 0 8000 fresh_state"
  have i: "fst (init ?H 0 (seed_output (heap fresh_state 0)))" by (simp add: stage_hooks_def)
  have r: "returned (start ?H (Suc 0) 0 fresh_state) = Some True" by (simp add: eval_defs)
  have j: "fst (init ?K 0 (seed_output (heap ?t 0)))" by (simp add: stage_hooks_def)
  have q: "returned (start ?K (Suc 0) 0 ?t) = Some True" by (simp add: eval_defs)
  show ?thesis
    using start_computes_rates [OF i returned_final [OF r]]
      start_computes_rates [OF j returned_final [OF q]] r q
    by (simp add: stage_hooks_def fresh_state_def DspBlock_def seed_output_def setSampleRate_def)
qed

text \<open>
  C3, as amended. Take a node that is not running, whose \<open>init\<close> succeeds, with a nonzero
  input rate and a nonzero announced output rate (so that no division is undefined). The
  part of \<open>start\<close> before the consumer loop returns. If
  \<open>inputSampleRate * interpolation / decimation\<close> differs from \<open>outputSampleRate\<close>,
  neither rate is a whole multiple of the other, \<open>start\<close> returns failure at any call
  depth, the hooks called are \<open>init\<close> and then \<open>deinit\<close>, and the node is not running.
  The two differ whenever the output rate is the greater one and is not a whole multiple
  of the input rate. If one rate is a whole multiple of the other, the node's own part
  succeeds, and \<open>start\<close> returns failure only in this way: the consumers before some
  position of the list were configured and started one after the other, the \<open>start\<close> of
  the consumer at that position returned failure, and \<open>stop\<close> of the node, called on
  the state it left, gave the state returned. Nothing is said of an output rate that is
  smaller than the input rate and does not divide it.
\<close>

theorem start_rate_mismatch:
  assumes "fst (init H a (seed_output (heap s a)))" and "\<not> isRunning (heap s a)"
    and "inputSampleRate (heap s a) \<noteq> 0"
    and "fst (snd (init H a (seed_output (heap s a)))) \<noteq> 0"
  shows "\<exists>ok s1. start_local H a s = Inr (ok, s1) \<and>
      (inputSampleRate (heap s1 a) * interpolation (heap s1 a) div decimation (heap s1 a)
         \<noteq> outputSampleRate (heap s1 a) \<longrightarrow>
       \<not> integer_related (inputSampleRate (heap s a)) (fst (snd (init H a (seed_output (heap s a))))) \<and>
       start H (Suc n) a s = Inr (False, s1) \<and> \<not> isRunning (heap s1 a) \<and>
       trace s1 = trace s @ [InitCall a, DeinitCall a]) \<and>
      (inputSampleRate (heap s a) < fst (snd (init H a (seed_output (heap s a)))) \<and>
       \<not> integer_related (inputSampleRate (heap s a)) (fst (snd (init H a (seed_output (heap s a)))))
       \<longrightarrow>
       inputSampleRate (heap s1 a) * interpolation (heap s1 a) div decimation (heap s1 a)
         \<noteq> outputSampleRate (heap s1 a)) \<and>
      (integer_related (inputSampleRate (heap s a)) (fst (snd (init H a (seed_output (heap s a)))))
       \<longrightarrow>
       ok \<and>
       (\<forall>r s'. start H (Suc n) a s = Inr (r, s') \<and> \<not> r \<longrightarrow>
          (\<exists>k \<sigma> t. k < length (consumers (heap s a)) \<and> \<sigma> 0 = s1 \<and>
             (\<forall>i<k. start H n (consumers (heap s a) ! i)
                       (configure a (consumers (heap s a) ! i) (\<sigma> i)) = Inr (True, \<sigma> (Suc i))) \<and>
             start H n (consumers (heap s a) ! k)
               (configure a (consumers (heap s a) ! k) (\<sigma> k)) = Inr (False, t) \<and>
             stop H n a t = Inr s')))"
proof -
  let ?x = "inputSampleRate (heap s a)"
  let ?y = "fst (snd (init H a (seed_output (heap s a))))"
  let ?cs = "consumers (heap s a)"
  have "\<not> isl (start_local H a s)"
  proof
    assume "isl (start_local H a s)"
    then obtain e where "start_local H a s = Inl e" by (cases "start_local H a s") auto
    with assms(3,4) show False by (simp add: start_local_div)
  qed
  then obtain ok s1 where l: "start_local H a s = Inr (ok, s1)"
    by (cases "start_local H a s") auto
  note lr = start_local_rates [OF assms(1) l]
  let ?f = "inputSampleRate (heap s1 a) * interpolation (heap s1 a) div decimation (heap s1 a)"
  have f: "?f = (if ?y \<le> ?x then ?x * 1 div (?x div ?y) else ?x * (?y div ?x) div 1)"
  proof (cases "?y \<le> ?x")
    case True
    with lr(3) lr(1,2) show ?thesis by simp
  next
    case False
    with lr(4) lr(1,2) show ?thesis by simp
  qed
  have rel: "?f = outputSampleRate (heap s1 a)" if "integer_related ?x ?y"
    using rate_check_integer_related [OF assms(3,4) that] f lr(2) by simp
  have 1: "\<not> integer_related ?x ?y \<and> start H (Suc n) a s = Inr (False, s1) \<and>
           \<not> isRunning (heap s1 a) \<and> trace s1 = trace s @ [InitCall a, DeinitCall a]"
    if m: "?f \<noteq> outputSampleRate (heap s1 a)"
  proof -
    from m lr(5) have "\<not> ok" by simp
    with l assms(1,2) start_local_mismatch_effect [of H a s s1]
    have "start H (Suc n) a s = Inr (False, s1) \<and> \<not> isRunning (heap s1 a) \<and>
          trace s1 = trace s @ [InitCall a, DeinitCall a]" by simp
    moreover have "\<not> integer_related ?x ?y" using m rel by blast
    ultimately show ?thesis by simp
  qed
  have 2: "?f \<noteq> outputSampleRate (heap s1 a)"
    if "?x < ?y \<and> \<not> integer_related ?x ?y"
  proof -
    from that have n: "\<not> ?y \<le> ?x" and d: "\<not> unat ?x dvd unat ?y"
      by (simp_all add: integer_related_def not_le)
    from n f have "?f = ?x * (?y div ?x) div 1" by simp
    with d word_mult_div_exact [OF assms(3), of ?y] lr(2) show ?thesis by simp
  qed
  have 3: "ok \<and>
       (\<forall>r s'. start H (Suc n) a s = Inr (r, s') \<and> \<not> r \<longrightarrow>
          (\<exists>k \<sigma> t. k < length ?cs \<and> \<sigma> 0 = s1 \<and>
             (\<forall>i<k. start H n (?cs ! i) (configure a (?cs ! i) (\<sigma> i)) = Inr (True, \<sigma> (Suc i))) \<and>
             start H n (?cs ! k) (configure a (?cs ! k) (\<sigma> k)) = Inr (False, t) \<and>
             stop H n a t = Inr s'))"
    if ir: "integer_related ?x ?y"
  proof (intro conjI allI impI)
    show ok: "ok" using rel [OF ir] lr(5) by simp
    fix r s'
    assume "start H (Suc n) a s = Inr (r, s') \<and> \<not> r"
    then have st: "start H (Suc n) a s = Inr (False, s')" by simp
    have cs: "consumers (heap s1 a) = ?cs"
      using start_local_graph [OF l] by (simp add: same_graph_def)
    from st l ok have
      "start_consumers (start H n) (stop H n a) a ?cs s1 = Inr (False, s')" by (simp add: cs)
    from start_consumers_chain [OF this] obtain k \<sigma> where z: "\<sigma> 0 = s1"
      and ch: "\<forall>i<k. start H n (?cs ! i) (configure a (?cs ! i) (\<sigma> i)) = Inr (True, \<sigma> (Suc i))"
      and fin: "if False then k = length ?cs \<and> s' = \<sigma> k
         else k < length ?cs \<and>
              (\<exists>t. start H n (?cs ! k) (configure a (?cs ! k) (\<sigma> k)) = Inr (False, t) \<and>
                   stop H n a t = Inr s')"
      by blast
    from fin obtain t where k: "k < length ?cs"
      and ft: "start H n (?cs ! k) (configure a (?cs ! k) (\<sigma> k)) = Inr (False, t)"
      and sp: "stop H n a t = Inr s'"
      by (simp only: if_False) blast
    show "\<exists>k \<sigma> t. k < length ?cs \<and> \<sigma> 0 = s1 \<and>
             (\<forall>i<k. start H n (?cs ! i) (configure a (?cs ! i) (\<sigma> i)) = Inr (True, \<sigma> (Suc i))) \<and>
             start H n (?cs ! k) (configure a (?cs ! k) (\<sigma> k)) = Inr (False, t) \<and>
             stop H n a t = Inr s'"
      by (rule exI [of _ k], rule exI [of _ \<sigma>], rule exI [of _ t]) (intro conjI k z ch ft sp)
  qed
  have c1: "?f \<noteq> outputSampleRate (heap s1 a) \<longrightarrow>
       \<not> integer_related ?x ?y \<and> start H (Suc n) a s = Inr (False, s1) \<and>
       \<not> isRunning (heap s1 a) \<and> trace s1 = trace s @ [InitCall a, DeinitCall a]"
    by (intro impI) (rule 1)
  have c2: "?x < ?y \<and> \<not> integer_related ?x ?y \<longrightarrow> ?f \<noteq> outputSampleRate (heap s1 a)"
    by (intro impI) (rule 2)
  have c3: "integer_related ?x ?y \<longrightarrow> ok \<and>
       (\<forall>r s'. start H (Suc n) a s = Inr (r, s') \<and> \<not> r \<longrightarrow>
          (\<exists>k \<sigma> t. k < length ?cs \<and> \<sigma> 0 = s1 \<and>
             (\<forall>i<k. start H n (?cs ! i) (configure a (?cs ! i) (\<sigma> i)) = Inr (True, \<sigma> (Suc i))) \<and>
             start H n (?cs ! k) (configure a (?cs ! k) (\<sigma> k)) = Inr (False, t) \<and>
             stop H n a t = Inr s'))"
    by (intro impI) (rule 3)
  show ?thesis
    by (rule exI [of _ ok], rule exI [of _ s1]) (intro conjI l c1 c2 c3)
qed

text \<open>
  Input 44100, output 48000: \<open>start\<close> fails and the node is not running. And node 0
  that feeds nodes 1 and 2, all at 48000, where \<open>init\<close> of node 2 fails: the failure of
  its \<open>start\<close> is the failure of the \<open>start\<close> of a consumer, followed by \<open>stop\<close>.
\<close>

theorem start_rate_mismatch_witness:
  "inputSampleRate (heap cd_rate_input 0) = 44100 \<and>
   fst (snd (init resampler_48k 0 (seed_output (heap cd_rate_input 0)))) = 48000 \<and>
   \<not> integer_related 44100 48000 \<and>
   returned (start resampler_48k (Suc 0) 0 cd_rate_input) = Some False \<and>
   \<not> isRunning (heap (final (start resampler_48k (Suc 0) 0 cd_rate_input)) 0) \<and>
   trace (final (start resampler_48k (Suc 0) 0 cd_rate_input)) = [InitCall 0, DeinitCall 0] \<and>
   integer_related (inputSampleRate (heap fan_out 0))
     (fst (snd (init failing_sink 0 (seed_output (heap fan_out 0))))) \<and>
   returned (start failing_sink (Suc (Suc (Suc 0))) 0 fan_out) = Some False \<and>
   (\<exists>k \<sigma> t. k < length (consumers (heap fan_out 0)) \<and>
      start failing_sink (Suc (Suc 0)) (consumers (heap fan_out 0) ! k)
        (configure 0 (consumers (heap fan_out 0) ! k) (\<sigma> k)) = Inr (False, t) \<and>
      stop failing_sink (Suc (Suc 0)) 0 t
        = Inr (final (start failing_sink (Suc (Suc (Suc 0))) 0 fan_out)))"
proof -
  let ?x = "inputSampleRate (heap cd_rate_input 0)"
  let ?y = "fst (snd (init resampler_48k 0 (seed_output (heap cd_rate_input 0))))"
  have h: "fst (init resampler_48k 0 (seed_output (heap cd_rate_input 0)))"
    "\<not> isRunning (heap cd_rate_input 0)" "?x \<noteq> 0" "?y \<noteq> 0"
    by (simp_all add: resampler_48k_def cd_rate_input_def eval_defs)
  have x: "?x = 44100" and y: "?y = 48000"
    by (simp_all add: resampler_48k_def cd_rate_input_def eval_defs)
  have nr: "\<not> integer_related 44100 48000" by (simp add: integer_related_def)
  have lt: "?x < ?y \<and> \<not> integer_related ?x ?y" using nr by (simp add: x y)
  have t: "trace cd_rate_input = []" by (simp add: cd_rate_input_def eval_defs)
  from start_rate_mismatch [OF h, of 0] obtain ok s1
    where c1: "inputSampleRate (heap s1 0) * interpolation (heap s1 0) div decimation (heap s1 0)
                 \<noteq> outputSampleRate (heap s1 0) \<longrightarrow>
               \<not> integer_related ?x ?y \<and>
               start resampler_48k (Suc 0) 0 cd_rate_input = Inr (False, s1) \<and>
               \<not> isRunning (heap s1 0) \<and>
               trace s1 = trace cd_rate_input @ [InitCall 0, DeinitCall 0]"
      and c2: "?x < ?y \<and> \<not> integer_related ?x ?y \<longrightarrow>
               inputSampleRate (heap s1 0) * interpolation (heap s1 0) div decimation (heap s1 0)
                 \<noteq> outputSampleRate (heap s1 0)"
    by blast
  from c2 lt have "inputSampleRate (heap s1 0) * interpolation (heap s1 0) div decimation (heap s1 0)
                 \<noteq> outputSampleRate (heap s1 0)" by blast
  with c1 t have "start resampler_48k (Suc 0) 0 cd_rate_input = Inr (False, s1)"
    "\<not> isRunning (heap s1 0)" "trace s1 = [InitCall 0, DeinitCall 0]" by simp_all
  then have first:
    "returned (start resampler_48k (Suc 0) 0 cd_rate_input) = Some False"
    "\<not> isRunning (heap (final (start resampler_48k (Suc 0) 0 cd_rate_input)) 0)"
    "trace (final (start resampler_48k (Suc 0) 0 cd_rate_input)) = [InitCall 0, DeinitCall 0]"
    by (simp_all add: returned_def final_def)
  let ?u = "inputSampleRate (heap fan_out 0)"
  let ?v = "fst (snd (init failing_sink 0 (seed_output (heap fan_out 0))))"
  let ?cs = "consumers (heap fan_out 0)"
  let ?r = "start failing_sink (Suc (Suc (Suc 0))) 0 fan_out"
  have g: "fst (init failing_sink 0 (seed_output (heap fan_out 0)))"
    "\<not> isRunning (heap fan_out 0)" "?u \<noteq> 0" "?v \<noteq> 0"
    by (simp_all add: failing_sink_def fan_out_def eval_defs)
  have ir: "integer_related ?u ?v"
    by (simp add: integer_related_def failing_sink_def fan_out_def eval_defs)
  have rf: "returned ?r = Some False"
    by (simp add: failing_sink_def fan_out_def eval_defs)
  then have sr: "?r = Inr (False, final ?r) \<and> \<not> False"
    by (cases ?r) (auto simp: returned_def final_def)
  from start_rate_mismatch [OF g, of "Suc (Suc 0)"] obtain ok2 s2
    where c3: "integer_related ?u ?v \<longrightarrow> ok2 \<and>
       (\<forall>r s'. start failing_sink (Suc (Suc (Suc 0))) 0 fan_out = Inr (r, s') \<and> \<not> r \<longrightarrow>
          (\<exists>k \<sigma> t. k < length ?cs \<and> \<sigma> 0 = s2 \<and>
             (\<forall>i<k. start failing_sink (Suc (Suc 0)) (?cs ! i) (configure 0 (?cs ! i) (\<sigma> i))
                      = Inr (True, \<sigma> (Suc i))) \<and>
             start failing_sink (Suc (Suc 0)) (?cs ! k) (configure 0 (?cs ! k) (\<sigma> k))
               = Inr (False, t) \<and>
             stop failing_sink (Suc (Suc 0)) 0 t = Inr s'))"
    by blast
  from c3 ir have "\<forall>r s'. ?r = Inr (r, s') \<and> \<not> r \<longrightarrow>
          (\<exists>k \<sigma> t. k < length ?cs \<and> \<sigma> 0 = s2 \<and>
             (\<forall>i<k. start failing_sink (Suc (Suc 0)) (?cs ! i) (configure 0 (?cs ! i) (\<sigma> i))
                      = Inr (True, \<sigma> (Suc i))) \<and>
             start failing_sink (Suc (Suc 0)) (?cs ! k) (configure 0 (?cs ! k) (\<sigma> k))
               = Inr (False, t) \<and>
             stop failing_sink (Suc (Suc 0)) 0 t = Inr s')"
    by (rule conjunct2 [OF mp])
  from this [rule_format, OF sr] obtain k \<sigma> t where k: "k < length ?cs"
    and ft: "start failing_sink (Suc (Suc 0)) (?cs ! k) (configure 0 (?cs ! k) (\<sigma> k))
               = Inr (False, t)"
    and sp: "stop failing_sink (Suc (Suc 0)) 0 t = Inr (final ?r)"
    by blast
  have second: "\<exists>k \<sigma> t. k < length ?cs \<and>
      start failing_sink (Suc (Suc 0)) (?cs ! k) (configure 0 (?cs ! k) (\<sigma> k)) = Inr (False, t) \<and>
      stop failing_sink (Suc (Suc 0)) 0 t = Inr (final ?r)"
    by (rule exI [of _ k], rule exI [of _ \<sigma>], rule exI [of _ t]) (intro conjI k ft sp)
  show ?thesis by (intro conjI x y nr first ir rf second)
qed

text \<open>
  C3 as stated fails in two ways. \<open>start\<close> also returns failure when a consumer does not
  start: node 0 feeds nodes 1 and 2, every rate is 48000, and \<open>init\<close> of node 2 fails;
  \<open>init\<close> of node 0 succeeds, its rates are related, and its \<open>start\<close> returns failure.
  And the relation of the source is not the absence of an exact integer ratio: from 48001
  to 24000 the decimation is 2, \<open>48001 / 2\<close> is 24000 in integers, and \<open>start\<close>
  succeeds, though 24000 does not divide 48001.
\<close>

theorem start_failure_is_not_the_ratio:
  "fst (init failing_sink 0 (seed_output (heap fan_out 0))) \<and>
   returned (start failing_sink (Suc (Suc (Suc 0))) 0 fan_out) = Some False \<and>
   inputSampleRate (heap (final (start failing_sink (Suc (Suc (Suc 0))) 0 fan_out)) 0) *
     interpolation (heap (final (start failing_sink (Suc (Suc (Suc 0))) 0 fan_out)) 0) div
     decimation (heap (final (start failing_sink (Suc (Suc (Suc 0))) 0 fan_out)) 0)
   = outputSampleRate (heap (final (start failing_sink (Suc (Suc (Suc 0))) 0 fan_out)) 0) \<and>
   fst (init producer_24k 0 (seed_output (heap odd_rate_input 0))) \<and>
   inputSampleRate (heap odd_rate_input 0) = 48001 \<and>
   returned (start producer_24k (Suc 0) 0 odd_rate_input) = Some True \<and>
   outputSampleRate (heap (final (start producer_24k (Suc 0) 0 odd_rate_input)) 0) = 24000 \<and>
   decimation (heap (final (start producer_24k (Suc 0) 0 odd_rate_input)) 0) = 2 \<and>
   isRunning (heap (final (start producer_24k (Suc 0) 0 odd_rate_input)) 0) \<and>
   \<not> integer_related 48001 24000"
  by (simp add: failing_sink_def fan_out_def producer_24k_def odd_rate_input_def
        integer_related_def eval_defs)

text \<open>
  C4, as amended. When the target is already in the consumer list, \<open>connect\<close> changes no
  consumer list. On a node that is not running it changes nothing at all; on a running
  node the state it returns is the one \<open>start\<close> of the target returned. No operation
  puts a node into a consumer list twice: the constructor's list is empty, \<open>connect\<close> and
  \<open>disconnect\<close> keep every list free of duplicates, and \<open>start\<close>, \<open>stop\<close> and \<open>run\<close>
  change no list.
\<close>

theorem connect_present_keeps_list:
  fixes s :: "('s::zero, 'u) dsp_state"
  assumes "connect H n a blk s = Inr s'"
  shows "(blk \<in> set (consumers (heap s a)) \<longrightarrow>
           same_graph s s' \<and>
           (if isRunning (heap s a) then \<exists>r. start H n blk s = Inr (r, s') else s' = s)) \<and>
         (no_duplicates s \<longrightarrow> no_duplicates s') \<and>
         (\<forall>t. no_duplicates s \<and> disconnect H n a blk s = Inr t \<longrightarrow> no_duplicates t) \<and>
         (\<forall>r t. start H n a s = Inr (r, t) \<longrightarrow> same_graph s t) \<and>
         (\<forall>t. stop H n a s = Inr t \<longrightarrow> same_graph s t) \<and>
         (\<forall>inb r t. run H n a inb s = Inr (r, t) \<longrightarrow> same_graph s t) \<and>
         consumers (DspBlock rate channels p nm ty :: ('s, 'u) block) = []"
proof -
  have 1: "same_graph s s' \<and>
           (if isRunning (heap s a) then \<exists>r. start H n blk s = Inr (r, s') else s' = s)"
    if m: "blk \<in> set (consumers (heap s a))"
  proof (cases "isRunning (heap s a)")
    case False
    with assms m show ?thesis by (simp add: connect_def hook_up_present)
  next
    case True
    with assms obtain r s1 where st: "start H n blk s = Inr (r, s1)" and s': "s' = hook_up a blk s1"
      by (auto simp: connect_def split: sum.splits)
    have g: "same_graph s s1" using st by (rule start_same_graph)
    with m have "blk \<in> set (consumers (heap s1 a))" by (simp add: same_graph_def)
    then have "s' = s1" by (simp add: s' hook_up_present)
    with st g True show ?thesis by simp
  qed
  have 2: "no_duplicates s'" if d: "no_duplicates s"
  proof (cases "isRunning (heap s a)")
    case False
    with assms d show ?thesis by (auto simp: connect_def hook_up_no_duplicates)
  next
    case True
    with assms obtain r s1 where st: "start H n blk s = Inr (r, s1)" and s': "s' = hook_up a blk s1"
      by (auto simp: connect_def split: sum.splits)
    have "no_duplicates s1" using start_same_graph [OF st] d by (rule same_graph_no_duplicates)
    then show ?thesis by (simp add: s' hook_up_no_duplicates)
  qed
  have 3: "no_duplicates t" if d: "no_duplicates s" and dc: "disconnect H n a blk s = Inr t" for t
  proof (cases "isRunning (heap s a)")
    case False
    with dc d show ?thesis by (auto simp: disconnect_def un_hook_no_duplicates)
  next
    case True
    with dc obtain s1 where st: "stop H n blk s = Inr s1" and t: "t = un_hook a blk s1"
      by (auto simp: disconnect_def split: sum.splits)
    have "no_duplicates s1" using stop_same_graph [OF st] d by (rule same_graph_no_duplicates)
    then show ?thesis by (simp add: t un_hook_no_duplicates)
  qed
  have 4: "consumers (DspBlock rate channels p nm ty :: ('s, 'u) block) = []"
    by (simp add: DspBlock_def)
  from 1 2 3 4 show ?thesis
    by (auto dest: start_same_graph stop_same_graph run_same_graph)
qed

text \<open>
  Node 1 is connected to node 0 a second time, first with neither node running, then with
  node 0 running.
\<close>

theorem connect_present_keeps_list_witness:
  "connect plain_copy 0 0 1 (hook_up 0 1 fresh_state) = Inr (hook_up 0 1 fresh_state) \<and>
   consumers (heap (hook_up 0 1 fresh_state) 0) = [1] \<and>
   no_duplicates (hook_up 0 1 fresh_state) \<and>
   \<not> isl (connect plain_copy (Suc 0) 0 1 consumer_stopped) \<and>
   consumers (heap (projr (connect plain_copy (Suc 0) 0 1 consumer_stopped)) 0) = [1] \<and>
   no_duplicates (projr (connect plain_copy (Suc 0) 0 1 consumer_stopped))"
proof -
  let ?H = "plain_copy"
  let ?s = "hook_up 0 1 fresh_state"
  have d: "no_duplicates ?s" by (simp add: no_duplicates_def eval_defs)
  have c1: "connect ?H 0 0 1 ?s = Inr ?s" by (simp add: plain_copy_def copy_hooks_def eval_defs)
  have st: "returned (start ?H (Suc (Suc 0)) 0 ?s) = Some True"
    by (simp add: plain_copy_def copy_hooks_def eval_defs)
  have sp: "\<not> isl (stop ?H (Suc 0) 1 (final (start ?H (Suc (Suc 0)) 0 ?s)))"
    by (simp add: plain_copy_def copy_hooks_def eval_defs)
  then have "stop ?H (Suc 0) 1 (final (start ?H (Suc (Suc 0)) 0 ?s)) = Inr consumer_stopped"
    by (simp add: consumer_stopped_def)
  from stop_same_graph [OF this] start_same_graph [OF returned_final [OF st]]
  have g: "same_graph ?s consumer_stopped" by (rule same_graph_trans [rotated])
  then have d2: "no_duplicates consumer_stopped" using d by (rule same_graph_no_duplicates)
  have m: "consumers (heap consumer_stopped 0) = [1]" using g by (simp add: same_graph_def eval_defs)
  have c: "\<not> isl (connect ?H (Suc 0) 0 1 consumer_stopped)"
    by (simp add: consumer_stopped_def plain_copy_def copy_hooks_def eval_defs)
  then have e: "connect ?H (Suc 0) 0 1 consumer_stopped
      = Inr (projr (connect ?H (Suc 0) 0 1 consumer_stopped))" by simp
  have mm: "1 \<in> set (consumers (heap consumer_stopped 0))" using m by simp
  have g2: "same_graph consumer_stopped (projr (connect ?H (Suc 0) 0 1 consumer_stopped))"
    using conjunct1 [OF connect_present_keeps_list [OF e]] mm by blast
  have d3: "no_duplicates (projr (connect ?H (Suc 0) 0 1 consumer_stopped))"
    using conjunct1 [OF conjunct2 [OF connect_present_keeps_list [OF e]]] d2 by blast
  have "consumers (heap (projr (connect ?H (Suc 0) 0 1 consumer_stopped)) 0) = [1]"
    using g2 m by (simp add: same_graph_def)
  moreover have "consumers (heap ?s 0) = [1]" by (simp add: eval_defs)
  ultimately show ?thesis using c c1 d d3 by blast
qed

text \<open>
  C4 as stated fails on a running node: \<open>connect\<close> starts the target before it looks at
  the list. Node 1 is in the list of the running node 0 and is not running; after
  \<open>connect\<close> it runs, and its \<open>init\<close> has been called.
\<close>

theorem connect_present_restarts_target:
  "1 \<in> set (consumers (heap consumer_stopped 0)) \<and>
   isRunning (heap consumer_stopped 0) \<and>
   \<not> isRunning (heap consumer_stopped 1) \<and>
   \<not> isl (connect plain_copy (Suc 0) 0 1 consumer_stopped) \<and>
   isRunning (heap (projr (connect plain_copy (Suc 0) 0 1 consumer_stopped)) 1) \<and>
   trace (projr (connect plain_copy (Suc 0) 0 1 consumer_stopped))
     = trace consumer_stopped @ [InitCall 1]"
  by (simp add: consumer_stopped_def plain_copy_def copy_hooks_def eval_defs)

text \<open>
  C5: when the node runs and its own step (resize and \<open>process\<close>) succeeded with state
  \<open>s1\<close>, \<open>run\<close> runs the consumers one after the other in the order of the list, each
  on the state the one before left and each with this node's \<open>buffer\<close> as input. It goes
  on while they succeed: either all have run and \<open>run\<close> returns success, or the consumer
  at some position \<open>k\<close> is the first to fail and \<open>run\<close> returns failure with the state
  that consumer left, the consumers after it not run and the ones before it not undone.
  Unless the node is among its own transitive consumers, the buffer handed over still
  holds what \<open>process\<close> produced at every one of these calls.
\<close>

theorem run_feeds_consumers_in_order:
  assumes "isRunning (heap s a)" and "run_local H a inBuffer s = Inr (True, s1)"
    and "run H (Suc n) a inBuffer s = Inr (ok, s')"
  shows "\<exists>k \<sigma>. k \<le> length (consumers (heap s a)) \<and> \<sigma> 0 = s1 \<and>
      (\<forall>i<k. run H n (consumers (heap s a) ! i) (BufferOf a) (\<sigma> i) = Inr (True, \<sigma> (Suc i))) \<and>
      (if ok then k = length (consumers (heap s a)) \<and> s' = \<sigma> k
       else k < length (consumers (heap s a)) \<and>
            run H n (consumers (heap s a) ! k) (BufferOf a) (\<sigma> k) = Inr (False, s')) \<and>
      ((\<forall>c \<in> set (consumers (heap s a)). a \<notin> reach s c) \<longrightarrow>
         (\<forall>i\<le>k. deref (BufferOf a) (\<sigma> i) = buffer (heap s1 a)))"
proof -
  let ?cs = "consumers (heap s a)"
  have g1: "same_graph s s1" using assms(2) by (rule run_local_graph)
  then have cs: "consumers (heap s1 a) = ?cs" by (simp add: same_graph_def)
  from assms have "run_consumers (run H n) a ?cs s1 = Inr (ok, s')" by (simp add: cs)
  from run_consumers_chain [OF this] obtain k \<sigma> where k: "k \<le> length ?cs" and z: "\<sigma> 0 = s1"
    and st: "\<forall>i<k. run H n (?cs ! i) (BufferOf a) (\<sigma> i) = Inr (True, \<sigma> (Suc i))"
    and fin: "if ok then k = length ?cs \<and> s' = \<sigma> k
              else k < length ?cs \<and> run H n (?cs ! k) (BufferOf a) (\<sigma> k) = Inr (False, s')"
    by blast
  have 5: "\<forall>i\<le>k. deref (BufferOf a) (\<sigma> i) = buffer (heap s1 a)"
    if nl: "\<forall>c \<in> set ?cs. a \<notin> reach s c"
  proof -
    have "i \<le> k \<Longrightarrow> same_graph s (\<sigma> i) \<and> heap (\<sigma> i) a = heap s1 a" for i
    proof (induction i)
      case 0
      then show ?case using z g1 by simp
    next
      case (Suc i)
      then have i: "i < k" and g: "same_graph s (\<sigma> i)" and h: "heap (\<sigma> i) a = heap s1 a"
        by simp_all
      from st i have r: "run H n (?cs ! i) (BufferOf a) (\<sigma> i) = Inr (True, \<sigma> (Suc i))" by simp
      have "?cs ! i \<in> set ?cs" using i k by simp
      with nl g have "a \<notin> reach (\<sigma> i) (?cs ! i)" by (simp add: same_graph_reach)
      with run_frame [OF r] have "heap (\<sigma> (Suc i)) a = heap (\<sigma> i) a" by simp
      moreover have "same_graph (\<sigma> i) (\<sigma> (Suc i))" using r by (rule run_same_graph)
      ultimately show ?case using g h by (auto intro: same_graph_trans)
    qed
    then show ?thesis by simp
  qed
  show ?thesis
    by (rule exI [of _ k], rule exI [of _ \<sigma>]) (use k z st fin 5 in simp)
qed

text \<open>
  Node 0 of the started pipeline is run on two samples, with stages of which the one at
  node 2 fails to process: nodes 0 and 1 process the samples, node 2 fails, node 3 is not
  run.
\<close>

theorem run_feeds_consumers_in_order_witness:
  "isRunning (heap three_sinks 0) \<and>
   returned (run_local (copy_hooks (\<lambda>a. a \<noteq> 2)) 0 (External [7, 8]) three_sinks) = Some True \<and>
   returned (run (copy_hooks (\<lambda>a. a \<noteq> 2)) (Suc (Suc 0)) 0 (External [7, 8]) three_sinks) = Some False \<and>
   trace (final (run (copy_hooks (\<lambda>a. a \<noteq> 2)) (Suc (Suc 0)) 0 (External [7, 8]) three_sinks))
     = trace three_sinks @ [ProcessCall 0, ProcessCall 1, ProcessCall 2] \<and>
   buffer (heap (final (run (copy_hooks (\<lambda>a. a \<noteq> 2)) (Suc (Suc 0)) 0 (External [7, 8]) three_sinks)) 1)
     = [7, 8] \<and>
   (\<exists>k \<sigma>. k < 3 \<and>
      \<sigma> 0 = final (run_local (copy_hooks (\<lambda>a. a \<noteq> 2)) 0 (External [7, 8]) three_sinks) \<and>
      run (copy_hooks (\<lambda>a. a \<noteq> 2)) (Suc 0) (consumers (heap three_sinks 0) ! k) (BufferOf 0) (\<sigma> k)
        = Inr (False, final (run (copy_hooks (\<lambda>a. a \<noteq> 2)) (Suc (Suc 0)) 0 (External [7, 8]) three_sinks)))"
proof -
  let ?H = "copy_hooks (\<lambda>a. a \<noteq> 2)"
  let ?r = "run ?H (Suc (Suc 0)) 0 (External [7, 8]) three_sinks"
  have a: "isRunning (heap three_sinks 0)"
    by (simp add: three_sinks_def copy_hooks_def eval_defs)
  have l: "returned (run_local ?H 0 (External [7, 8]) three_sinks) = Some True"
    by (simp add: three_sinks_def copy_hooks_def eval_defs)
  have r: "returned ?r = Some False"
    by (simp add: three_sinks_def copy_hooks_def eval_defs)
  have t: "trace (final ?r) = trace three_sinks @ [ProcessCall 0, ProcessCall 1, ProcessCall 2]"
    by (simp add: three_sinks_def copy_hooks_def eval_defs)
  have b: "buffer (heap (final ?r) 1) = [7, 8]"
    by (simp add: three_sinks_def copy_hooks_def eval_defs)
  have len: "length (consumers (heap three_sinks 0)) = 3"
    by (simp add: three_sinks_def copy_hooks_def eval_defs)
  from run_feeds_consumers_in_order [OF a returned_final [OF l] returned_final [OF r]]
  obtain k \<sigma> where z: "\<sigma> 0 = final (run_local ?H 0 (External [7, 8]) three_sinks)"
    and fin: "if False then k = length (consumers (heap three_sinks 0)) \<and> final ?r = \<sigma> k
       else k < length (consumers (heap three_sinks 0)) \<and>
            run ?H (Suc 0) (consumers (heap three_sinks 0) ! k) (BufferOf 0) (\<sigma> k)
              = Inr (False, final ?r)"
    by blast
  from fin have f1: "k < length (consumers (heap three_sinks 0))"
    and f2: "run ?H (Suc 0) (consumers (heap three_sinks 0) ! k) (BufferOf 0) (\<sigma> k)
           = Inr (False, final ?r)"
    by (simp_all only: if_False)
  from f1 len have f3: "k < 3" by (simp only:)
  have "\<exists>k \<sigma>. k < 3 \<and> \<sigma> 0 = final (run_local ?H 0 (External [7, 8]) three_sinks) \<and>
      run ?H (Suc 0) (consumers (heap three_sinks 0) ! k) (BufferOf 0) (\<sigma> k) = Inr (False, final ?r)"
    by (rule exI [of _ k], rule exI [of _ \<sigma>]) (intro conjI f3 z f2)
  with a l r t b show ?thesis by (intro conjI)
qed

text \<open>
  C6, as amended. Let no cycle of the consumer graph be reachable from the node (a ranking
  falls along every edge below it), and let \<open>stop\<close> be allowed one level of calls more
  than the rank of the node. Then \<open>stop\<close> returns, and returns no error. It has stopped
  the consumers one after the other in the order of the list, each on the state the one
  before left, whether or not the node itself was running. After them it called
  \<open>deinit\<close> exactly if the node was running when \<open>stop\<close> was called. In the state it
  returns, the node and every node below it are not running and have an empty buffer, and
  a second \<open>stop\<close> returns that very state: no hook is called again.
\<close>

theorem stop_cascades_and_is_idempotent:
  assumes "ranked_below rk s a" and "rk a \<le> n"
  shows "\<exists>\<sigma> s'. stop H (Suc n) a s = Inr s' \<and> \<sigma> 0 = s \<and>
     (\<forall>i<length (consumers (heap s a)).
        stop H n (consumers (heap s a) ! i) (\<sigma> i) = Inr (\<sigma> (Suc i))) \<and>
     s' = stop_self H a (\<sigma> (length (consumers (heap s a)))) \<and>
     trace s' = trace (\<sigma> (length (consumers (heap s a)))) @
                (if isRunning (heap s a) then [DeinitCall a] else []) \<and>
     (\<forall>x \<in> reach s a. \<not> isRunning (heap s' x) \<and> buffer (heap s' x) = []) \<and>
     stop H (Suc n) a s' = Inr s'"
proof -
  let ?cs = "consumers (heap s a)"
  from assms have "rk a < Suc n" by simp
  from stop_returns_below [OF assms(1) this] obtain s' where st: "stop H (Suc n) a s = Inr s'"
    by blast
  then obtain s1 where l: "stop_consumers (stop H n) ?cs s = Inr s1"
    and s': "s' = stop_self H a s1"
    by (auto split: sum.splits)
  from stop_consumers_chain [OF l] obtain \<sigma> where z: "\<sigma> 0 = s"
    and ch: "\<forall>i<length ?cs. stop H n (?cs ! i) (\<sigma> i) = Inr (\<sigma> (Suc i))"
    and fin: "s1 = \<sigma> (length ?cs)" by blast
  have nl: "\<not> loops s a" using stop_loops [of s a H "Suc n" s'] st by blast
  have "same_graph s s1 \<and> heap s1 a = heap s a"
  proof (rule stop_consumers_inv [OF l, where P = "\<lambda>t. same_graph s t \<and> heap t a = heap s a"])
    show "same_graph s s \<and> heap s a = heap s a" by simp
  next
    fix c t t'
    assume c: "c \<in> set ?cs" and t: "same_graph s t \<and> heap t a = heap s a"
      and sc: "stop H n c t = Inr t'"
    from no_loop_consumer [OF nl c] t have "a \<notin> reach t c"
      by (auto simp: same_graph_reach)
    with stop_frame [OF sc] have "heap t' a = heap t a" by simp
    moreover have "same_graph t t'" using sc by (rule stop_same_graph)
    ultimately show "same_graph s t' \<and> heap t' a = heap s a"
      using t by (auto intro: same_graph_trans)
  qed
  then have run1: "isRunning (heap s1 a) = isRunning (heap s a)" by simp
  have 4: "s' = stop_self H a (\<sigma> (length ?cs))" using s' fin by simp
  have 5: "trace s' = trace (\<sigma> (length ?cs)) @
             (if isRunning (heap s a) then [DeinitCall a] else [])"
    using run1 by (simp add: s' fin [symmetric] stop_self_trace)
  have 6: "\<forall>x \<in> reach s a. \<not> isRunning (heap s' x) \<and> buffer (heap s' x) = []"
    using stop_quiets [OF st] by (simp add: quiet_def)
  have 7: "stop H (Suc n) a s' = Inr s'" using st by (rule stop_idem)
  show ?thesis
    by (rule exI [of _ \<sigma>], rule exI [of _ s']) (intro conjI st z ch 4 5 6 7)
qed

text \<open>
  The started pipeline of node 0 and its three consumers is stopped, twice; that node 4
  of the store feeds itself does not matter.
\<close>

theorem stop_cascades_and_is_idempotent_witness:
  "ranked_below (\<lambda>x. if x = 0 then Suc 0 else 0) side_loop 0 \<and>
   4 \<in> set (consumers (heap side_loop 4)) \<and>
   \<not> isl (stop plain_copy (Suc (Suc 0)) 0 side_loop) \<and>
   trace (projr (stop plain_copy (Suc (Suc 0)) 0 side_loop))
     = [DeinitCall 1, DeinitCall 2, DeinitCall 3, DeinitCall 0] \<and>
   \<not> isRunning (heap (projr (stop plain_copy (Suc (Suc 0)) 0 side_loop)) 0) \<and>
   \<not> isRunning (heap (projr (stop plain_copy (Suc (Suc 0)) 0 side_loop)) 3) \<and>
   buffer (heap (projr (stop plain_copy (Suc (Suc 0)) 0 side_loop)) 0) = [] \<and>
   stop plain_copy (Suc (Suc 0)) 0 (projr (stop plain_copy (Suc (Suc 0)) 0 side_loop))
     = stop plain_copy (Suc (Suc 0)) 0 side_loop"
proof -
  let ?H = "plain_copy"
  let ?rk = "\<lambda>x::nat. if x = 0 then Suc 0 else 0"
  have cs: "consumers (heap side_loop 0) = [1, 2, 3]" "consumers (heap side_loop 1) = []"
    "consumers (heap side_loop 2) = []" "consumers (heap side_loop 3) = []"
    "consumers (heap side_loop 4) = [4]" "consumers (heap side_loop (Suc 0)) = []"
    by (simp_all add: side_loop_def three_sinks_def DspBlock_def hook_up_def put_def)
  have "reach side_loop 0 \<subseteq> {0, 1, 2, 3}"
    by (rule reach_closed) (simp_all add: cs)
  then have rk: "ranked_below ?rk side_loop 0"
    unfolding ranked_below_def using cs by auto
  have le: "?rk 0 \<le> Suc 0" by simp
  from stop_cascades_and_is_idempotent [OF rk le, of ?H] obtain s'
    where st: "stop ?H (Suc (Suc 0)) 0 side_loop = Inr s'"
      and q: "\<forall>x \<in> reach side_loop 0. \<not> isRunning (heap s' x) \<and> buffer (heap s' x) = []"
      and id: "stop ?H (Suc (Suc 0)) 0 s' = Inr s'"
    by blast
  have "3 \<in> reach side_loop 0" by (simp add: consumer_in_reach cs)
  with q have "\<not> isRunning (heap s' 0)" "\<not> isRunning (heap s' 3)" "buffer (heap s' 0) = []"
    by simp_all
  moreover have "trace (projr (stop ?H (Suc (Suc 0)) 0 side_loop))
      = [DeinitCall 1, DeinitCall 2, DeinitCall 3, DeinitCall 0]"
    by (simp add: side_loop_def three_sinks_def plain_copy_def copy_hooks_def eval_defs)
  ultimately show ?thesis using rk st id cs(5) by simp
qed

text \<open>
  C6 as stated fails on a node that is among its own consumers, which \<open>connect\<close>
  accepts: \<open>stop\<close> stops the consumers first and so calls itself without end. Whatever
  the depth allowed, it does not return.
\<close>

theorem stop_recurses_on_own_consumer:
  "connect plain_copy 0 0 0 fresh_state = Inr self_fed \<and>
   consumers (heap self_fed 0) = [0] \<and>
   (\<forall>n. stop plain_copy n 0 self_fed = Inl OutOfFuel)"
proof -
  have c: "connect plain_copy 0 0 0 fresh_state = Inr self_fed"
    by (simp add: self_fed_def connect_def fresh_state_def DspBlock_def)
  have cs: "consumers (heap self_fed 0) = [0]"
    by (simp add: self_fed_def hook_up_def put_def fresh_state_def DspBlock_def)
  then have "(0, 0) \<in> consumer_rel self_fed" by (simp add: consumer_rel_def)
  then have "(0, 0) \<in> (consumer_rel self_fed)\<^sup>+" by (rule r_into_trancl)
  then have "loops self_fed 0" unfolding loops_def using reach_self [of 0 self_fed] by blast
  then have "\<forall>n. stop plain_copy n 0 self_fed = Inl OutOfFuel" by (simp add: stop_on_loop)
  with c cs show ?thesis by (intro conjI)
qed

text \<open>
  C7, as amended. Take a running node that is not among its own transitive consumers and
  whose \<open>process\<close> leaves the size of the output vector alone. When \<open>run\<close> returns, the
  buffer of the node has \<open>outframes * outputChannels\<close> elements, with
  \<open>inframes = length / inputChannels\<close> and \<open>outframes = inframes * interpolation /
  decimation\<close>, the product taken in 32 bits. If the buffer had that size already,
  \<open>process\<close> is called on the state as it was: nothing is resized. The rates, channel
  counts and factors of the node are unchanged, so a further \<open>run\<close> on an input of the
  same frame count leaves the size of the buffer as it is. The size is a multiple of
  \<open>outputChannels\<close> whenever \<open>outframes * outputChannels\<close> does not exceed 32 bits.
\<close>

theorem run_sizes_buffer:
  assumes "isRunning (heap s a)" and "keeps_size H a"
    and "\<forall>c \<in> set (consumers (heap s a)). a \<notin> reach s c"
    and "run H n a inBuffer s = Inr (ok, s')"
  shows "length (buffer (heap s' a)) = required_size (heap s a) (length (deref inBuffer s)) \<and>
    (length (buffer (heap s a)) = required_size (heap s a) (length (deref inBuffer s)) \<longrightarrow>
       run_local H a inBuffer s = Inr (call_process H a inBuffer s)) \<and>
    settings (heap s' a) = settings (heap s a) \<and>
    (\<forall>inBuffer' ok' s''.
       run H n a inBuffer' s' = Inr (ok', s'') \<and>
       length (deref inBuffer' s') div unat (inputChannels (heap s a))
         = length (deref inBuffer s) div unat (inputChannels (heap s a)) \<longrightarrow>
       length (buffer (heap s'' a)) = length (buffer (heap s' a))) \<and>
    (unat (outframes_of (inframes_of (length (deref inBuffer s)) (inputChannels (heap s a)))
             (interpolation (heap s a)) (decimation (heap s a)))
       * unat (outputChannels (heap s a)) < 2 ^ 32 \<longrightarrow>
     unat (outputChannels (heap s' a)) dvd length (buffer (heap s' a)))"
proof -
  let ?len = "length (deref inBuffer s)"
  obtain m where n: "n = Suc m" using assms(4) by (cases n) auto
  from assms(1,4) obtain r1 s1 where l: "run_local H a inBuffer s = Inr (r1, s1)"
    by (auto simp: n split: sum.splits)
  have 1: "length (buffer (heap s' a)) = required_size (heap s a) ?len"
    using assms by (rule run_size)
  have 2: "run_local H a inBuffer s = Inr (call_process H a inBuffer s)"
    if "length (buffer (heap s a)) = required_size (heap s a) ?len"
  proof -
    from l have "run_local H a inBuffer s
        = Inr (call_process H a inBuffer (size_buffer a (required_size (heap s a) ?len) s))"
      by (simp add: run_local_def Let_def required_size_def split: if_splits)
    with that show ?thesis by (simp add: size_buffer_same)
  qed
  have 3: "settings (heap s' a) = settings (heap s a)" using assms(4) by (rule run_settings)
  have g: "same_graph s s'" using assms(4) by (rule run_same_graph)
  have 4: "length (buffer (heap s'' a)) = length (buffer (heap s' a))"
    if r2: "run H n a inBuffer' s' = Inr (ok', s'')"
      and fr: "length (deref inBuffer' s') div unat (inputChannels (heap s a))
                 = ?len div unat (inputChannels (heap s a))"
    for inBuffer' ok' s''
  proof -
    have a': "isRunning (heap s' a)" using run_running [OF assms(4), of a] assms(1) by simp
    have c': "\<forall>c \<in> set (consumers (heap s' a)). a \<notin> reach s' c"
    proof -
      have "reach s' c = reach s c" for c using g by (rule same_graph_reach)
      moreover have "consumers (heap s' a) = consumers (heap s a)" using g by (simp add: same_graph_def)
      ultimately show ?thesis using assms(3) by simp
    qed
    from run_size [OF a' assms(2) c' r2]
    have "length (buffer (heap s'' a)) = required_size (heap s' a) (length (deref inBuffer' s'))" .
    also have "\<dots> = required_size (heap s a) ?len" using 3 fr by (rule required_size_cong)
    finally show ?thesis using 1 by simp
  qed
  have 5: "unat (outputChannels (heap s' a)) dvd length (buffer (heap s' a))"
    if "unat (outframes_of (inframes_of ?len (inputChannels (heap s a)))
             (interpolation (heap s a)) (decimation (heap s a)))
          * unat (outputChannels (heap s a)) < 2 ^ 32"
  proof -
    from 3 have "outputChannels (heap s' a) = outputChannels (heap s a)" by (simp add: settings_def)
    with required_size_dvd [OF that] 1 show ?thesis by simp
  qed
  from 1 2 3 4 5 show ?thesis by (intro conjI allI impI) (simp_all only:, blast+)
qed

text \<open>Two samples on one channel at equal rates: node 0 of the started pipeline keeps two.\<close>

theorem run_sizes_buffer_witness:
  "isRunning (heap three_sinks 0) \<and>
   keeps_size plain_copy 0 \<and>
   returned (run plain_copy (Suc (Suc 0)) 0 (External [7, 8]) three_sinks) = Some True \<and>
   length (buffer (heap (final (run plain_copy (Suc (Suc 0)) 0 (External [7, 8])
     three_sinks)) 0)) = 2 \<and>
   unat (outputChannels (heap (final (run plain_copy (Suc (Suc 0)) 0 (External [7, 8])
     three_sinks)) 0))
     dvd length (buffer (heap (final (run plain_copy (Suc (Suc 0)) 0 (External [7, 8])
       three_sinks)) 0))"
proof -
  let ?H = "plain_copy"
  let ?r = "run ?H (Suc (Suc 0)) 0 (External [7, 8]) three_sinks"
  have a: "isRunning (heap three_sinks 0)" by (simp add: three_sinks_def)
  have k: "keeps_size ?H 0" unfolding plain_copy_def by (rule copy_hooks_keeps_size)
  have "ranked (\<lambda>x. if x = 0 then Suc 0 else 0) three_sinks"
    by (simp add: ranked_def three_sinks_def DspBlock_def)
  then have c: "\<forall>c \<in> set (consumers (heap three_sinks 0)). 0 \<notin> reach three_sinks c"
    by (auto dest: ranked_consumer_apart)
  have r: "returned ?r = Some True"
    by (simp add: three_sinks_def plain_copy_def copy_hooks_def eval_defs)
  note th = run_sizes_buffer [OF a k c returned_final [OF r]]
  have n: "required_size (heap three_sinks 0) (length (deref (External [7, 8]) three_sinks)) = 2"
    by (simp add: required_size_def three_sinks_def DspBlock_def inframes_of_def outframes_of_def)
  have o: "unat (outframes_of (inframes_of (length (deref (External [7, 8]) three_sinks))
               (inputChannels (heap three_sinks 0)))
             (interpolation (heap three_sinks 0)) (decimation (heap three_sinks 0)))
           * unat (outputChannels (heap three_sinks 0)) < 2 ^ 32"
    by (simp add: three_sinks_def DspBlock_def inframes_of_def outframes_of_def)
  from th n have 1: "length (buffer (heap (final ?r) 0)) = 2" by (simp only:)
  from th o have 2: "unat (outputChannels (heap (final ?r) 0)) dvd length (buffer (heap (final ?r) 0))"
    by blast
  from a k r 1 2 show ?thesis by (intro conjI)
qed

text \<open>
  C7 as stated fails where the 32-bit product wraps. The node has three channels in and
  out and interpolates by 1431655766; one input frame gives 1431655766 output frames, and
  \<open>1431655766 * 3\<close> is 2 in 32 bits: the buffer gets two elements, which are not a whole
  number of frames of three channels.
\<close>

theorem run_size_wraps:
  "isRunning (heap wide_started 0) \<and>
   interpolation (heap wide_started 0) = 1431655766 \<and>
   outputChannels (heap wide_started 0) = 3 \<and>
   returned (run wide_interpolator (Suc 0) 0 (External [0, 0, 0]) wide_started) = Some True \<and>
   length (buffer (heap (final (run wide_interpolator (Suc 0) 0 (External [0, 0, 0]) wide_started)) 0))
     = 2 \<and>
   \<not> unat (outputChannels (heap (final (run wide_interpolator (Suc 0) 0 (External [0, 0, 0])
         wide_started)) 0))
       dvd length (buffer (heap (final (run wide_interpolator (Suc 0) 0 (External [0, 0, 0])
         wide_started)) 0))"
  by (simp add: wide_started_def wide_interpolator_def eval_defs)

text \<open>
  C8: on a node that is not running, \<open>run\<close> returns failure and leaves the whole state
  as it was: no buffer is resized, no hook is called (the trace is part of the state),
  and no consumer is run (the result needs no more than one level of calls).
\<close>

theorem run_not_running:
  "\<not> isRunning (heap s a) \<Longrightarrow> run H (Suc n) a inBuffer s = Inr (False, s)"
  by simp

theorem run_not_running_witness:
  "\<not> isRunning (heap fresh_state 0) \<and>
   run (stage_hooks (\<lambda>a. True) (\<lambda>a r. r)) (Suc 0) 0 (External [1, 2, 3]) fresh_state
     = Inr (False, fresh_state)"
  using run_not_running [of fresh_state 0 "stage_hooks (\<lambda>a. True) (\<lambda>a r. r)" 0 "External [1, 2, 3]"]
  by (simp add: fresh_state_def DspBlock_def)

text \<open>
  C9: \<open>connect\<close> on a running node starts the target in the state it finds it in:
  \<open>start\<close> is applied to the state before \<open>connect\<close>, not to one where the target
  was given this node's output rate and channels, and only then is the membership of the
  target in the consumer list looked at. The target's input rate and input channel count
  are the same after \<open>connect\<close> as before.
\<close>

theorem connect_starts_unconfigured:
  assumes "isRunning (heap s a)" and "connect H n a blk s = Inr s'"
  shows "inputSampleRate (heap s' blk) = inputSampleRate (heap s blk) \<and>
         inputChannels (heap s' blk) = inputChannels (heap s blk) \<and>
         (\<exists>r s1. start H n blk s = Inr (r, s1) \<and> s' = hook_up a blk s1)"
proof -
  from assms obtain r s1 where st: "start H n blk s = Inr (r, s1)" and s': "s' = hook_up a blk s1"
    by (auto simp: connect_def split: sum.splits)
  have "inputSampleRate (heap s' blk) = inputSampleRate (heap s1 blk) \<and>
        inputChannels (heap s' blk) = inputChannels (heap s1 blk)"
    by (simp add: s' hook_up_def)
  with start_input_self [OF st] st s' show ?thesis by auto
qed

text \<open>
  Node 0 runs and produces 8000 from 48000; node 1 is connected to it and is started with
  its own default input rate 48000.
\<close>

theorem connect_starts_unconfigured_witness:
  "isRunning (heap running_source 0) \<and>
   outputSampleRate (heap running_source 0) = 8000 \<and>
   \<not> isl (connect decimating_source (Suc 0) 0 1 running_source) \<and>
   inputSampleRate (heap (projr (connect decimating_source (Suc 0) 0 1 running_source)) 1) = 48000 \<and>
   isRunning (heap (projr (connect decimating_source (Suc 0) 0 1 running_source)) 1)"
proof -
  have r: "isRunning (heap running_source 0)"
    by (simp add: running_source_def decimating_source_def eval_defs)
  have c: "\<not> isl (connect decimating_source (Suc 0) 0 1 running_source)"
    by (simp add: running_source_def decimating_source_def eval_defs)
  then have e: "connect decimating_source (Suc 0) 0 1 running_source
      = Inr (projr (connect decimating_source (Suc 0) 0 1 running_source))" by simp
  show ?thesis
    using connect_starts_unconfigured [OF r e] r c
    by (simp add: running_source_def decimating_source_def eval_defs)
qed

text \<open>
  C10: no division is guarded. The part of \<open>start\<close> before the consumer loop divides by
  zero exactly when \<open>init\<close> succeeded and the input rate or the output rate that
  \<open>init\<close> announced is zero; in every other case the decimation it leaves is nonzero, so
  its verification and the later division by \<open>_decimation\<close> in \<open>run\<close> are defined.
  With a nonzero decimation, the frame computation of \<open>run\<close> divides by zero exactly
  when \<open>inputChannels\<close> is zero.
\<close>

theorem unguarded_divisions:
  "(start_local H a s = Inl DivByZero \<longleftrightarrow>
      fst (init H a (seed_output (heap s a))) \<and>
      (inputSampleRate (heap s a) = 0 \<or> fst (snd (init H a (seed_output (heap s a)))) = 0)) \<and>
   (\<forall>ok s1. start_local H a s = Inr (ok, s1) \<longrightarrow> decimation (heap s a) \<noteq> 0 \<or> ok \<longrightarrow>
      decimation (heap s1 a) \<noteq> 0) \<and>
   (decimation (heap s a) \<noteq> 0 \<longrightarrow>
      (run_local H a inBuffer s = Inl DivByZero \<longleftrightarrow> inputChannels (heap s a) = 0))"
proof (intro conjI allI impI)
  show "start_local H a s = Inl DivByZero \<longleftrightarrow>
      fst (init H a (seed_output (heap s a))) \<and>
      (inputSampleRate (heap s a) = 0 \<or> fst (snd (init H a (seed_output (heap s a)))) = 0)"
    by (simp add: start_local_div)
next
  fix ok s1
  assume "start_local H a s = Inr (ok, s1)" and "decimation (heap s a) \<noteq> 0 \<or> ok"
  then show "decimation (heap s1 a) \<noteq> 0"
    by (auto simp: start_local_def Let_def verify_rates_def seed_output_def word_div_nonzero
             split: prod.splits if_splits)
next
  assume "decimation (heap s a) \<noteq> 0"
  then show "run_local H a inBuffer s = Inl DivByZero \<longleftrightarrow> inputChannels (heap s a) = 0"
    by (simp add: run_local_div)
qed

text \<open>
  An announced output rate of zero, an input rate of zero and an input channel count of zero
  each reach the division; the defaults 48000 and 1 do not.
\<close>

theorem unguarded_divisions_witness:
  "start_local (stage_hooks (\<lambda>a. True) (\<lambda>a r. 0)) 0 fresh_state = Inl DivByZero \<and>
   start_local (stage_hooks (\<lambda>a. True) (\<lambda>a r. r)) 0 (setSampleRate 0 0 fresh_state) = Inl DivByZero \<and>
   decimation (heap (setChannels 0 0 fresh_state) 0) \<noteq> 0 \<and>
   run_local (stage_hooks (\<lambda>a. True) (\<lambda>a r. r)) 0 (External [1, 2]) (setChannels 0 0 fresh_state)
     = Inl DivByZero \<and>
   run_local (stage_hooks (\<lambda>a. True) (\<lambda>a r. r)) 0 (External [1, 2]) fresh_state \<noteq> Inl DivByZero"
  using unguarded_divisions [of "stage_hooks (\<lambda>a. True) (\<lambda>a r. 0)" 0 fresh_state "External [1, 2]"]
    unguarded_divisions [of "stage_hooks (\<lambda>a. True) (\<lambda>a r. r)" 0 "setSampleRate 0 0 fresh_state" "External [1, 2]"]
    unguarded_divisions [of "stage_hooks (\<lambda>a. True) (\<lambda>a r. r)" 0 "setChannels 0 0 fresh_state" "External [1, 2]"]
    unguarded_divisions [of "stage_hooks (\<lambda>a. True) (\<lambda>a r. r)" 0 fresh_state "External [1, 2]"]
  by (simp add: stage_hooks_def fresh_state_def DspBlock_def seed_output_def setSampleRate_def
        setChannels_def)

end
